theory Spec2Isabelle
  imports Main
begin

section \<open>Block utilities of umi-build-dev (plugins/commands/block/util.js)\<close>

text \<open>
  A shallow embedding of the helper functions of the block command: block-name
  generation, the block list printer, the git cache update and the route tree helpers.
  JavaScript exceptions are values of \<open>exn\<close> on the left of a sum.
\<close>

subsection \<open>Exceptions and strings\<close>

text \<open>
  \<open>TypeError\<close> is what reading a property of \<open>null\<close> or \<open>undefined\<close> throws;
  \<open>Error m\<close> is \<open>new Error(m)\<close>.
\<close>

datatype exn = TypeError | Error string

text \<open>The character classes \<open>[A-Z]\<close>, \<open>[a-z]\<close> and \<open>[0-9]\<close> of the regular expression.\<close>

definition isUpper :: "char \<Rightarrow> bool" where
  "isUpper c = (65 \<le> (of_char c :: nat) \<and> (of_char c :: nat) \<le> 90)"

definition isLower :: "char \<Rightarrow> bool" where
  "isLower c = (97 \<le> (of_char c :: nat) \<and> (of_char c :: nat) \<le> 122)"

definition isDigit :: "char \<Rightarrow> bool" where
  "isDigit c = (48 \<le> (of_char c :: nat) \<and> (of_char c :: nat) \<le> 57)"

text \<open>
  \<open>String.prototype.toLowerCase\<close>, on the strings it is applied to here: matches of
  the regular expression, which hold ASCII letters and digits only.
\<close>

definition toLowerChar :: "char \<Rightarrow> char" where
  "toLowerChar c = (if isUpper c then char_of (of_char c + (32::nat)) else c)"

definition toLowerCase :: "string \<Rightarrow> string" where
  "toLowerCase s = map toLowerChar s"

text \<open>\<open>Array.prototype.join(sep)\<close> on an array of strings.\<close>

fun join :: "string \<Rightarrow> string list \<Rightarrow> string" where
  "join sep [] = []"
| "join sep [x] = x"
| "join sep (x # y # ys) = x @ sep @ join sep (y # ys)"

text \<open>\<open>String.prototype.split('/')\<close>: the pieces between the slashes, empty ones kept.\<close>

fun splitFrom :: "string \<Rightarrow> string \<Rightarrow> string list" where
  "splitFrom piece [] = [piece]"
| "splitFrom piece (c # cs) =
     (if c = CHR ''/'' then piece # splitFrom [] cs
      else splitFrom (piece @ [c]) cs)"

definition split :: "string \<Rightarrow> string list" where
  "split s = splitFrom [] s"

subsection \<open>genBlockName\<close>

text \<open>
  \<^verbatim>\<open>name.match(/[A-Z]?[a-z]+|[0-9]+/g).map(p => p.toLowerCase()).join('/')\<close>

  The regular expression is modelled by its backtracking semantics at one position:
  \<open>lowerRun\<close> is the greedy \<open>[a-z]+\<close>, \<open>digitRun\<close> the greedy \<open>[0-9]+\<close>,
  \<open>wordAlt\<close> the first alternative (the optional capital is tried first, then the
  alternative is retried without it), \<open>matchAt\<close> the alternation. \<open>matchAll\<close> is the
  global match: after a match the scan resumes behind it, where nothing matches it
  moves on by one character. \<open>match\<close> returns \<open>null\<close> when there is no match at all,
  and \<open>null.map\<close> throws.
\<close>

definition lowerRun :: "string \<Rightarrow> string option" where
  "lowerRun s = (let m = takeWhile isLower s in if m = [] then None else Some m)"

definition digitRun :: "string \<Rightarrow> string option" where
  "digitRun s = (let m = takeWhile isDigit s in if m = [] then None else Some m)"

fun wordAlt :: "string \<Rightarrow> string option" where
  "wordAlt [] = None"
| "wordAlt (c # cs) =
     (if isUpper c then
        (case lowerRun cs of
           Some m \<Rightarrow> Some (c # m)
         | None \<Rightarrow> lowerRun (c # cs))
      else lowerRun (c # cs))"

definition matchAt :: "string \<Rightarrow> string option" where
  "matchAt s = (case wordAlt s of Some m \<Rightarrow> Some m | None \<Rightarrow> digitRun s)"

function matchAll :: "string \<Rightarrow> string list" where
  "matchAll [] = []"
| "matchAll (c # cs) =
     (case matchAt (c # cs) of
        Some m \<Rightarrow> m # matchAll (drop (length m) (c # cs))
      | None \<Rightarrow> matchAll cs)"
  by pat_completeness auto
termination
  by (relation "measure length")
     (auto simp: matchAt_def lowerRun_def digitRun_def Let_def
           split: option.splits if_splits)

definition genBlockName :: "string \<Rightarrow> exn + string" where
  "genBlockName name =
     (case matchAll name of
        [] \<Rightarrow> Inl TypeError
      | m # ms \<Rightarrow> Inr (join ''/'' (map toLowerCase (m # ms))))"

text \<open>
  The tokenization as the specification words it: a capital letter immediately followed
  by one or more lowercase letters is one token, a run of lowercase letters with no
  capital before it is one token, a maximal run of digits is one token, and every other
  character, a capital with no lowercase letter behind it included, is dropped.
\<close>

inductive tokens :: "string \<Rightarrow> string list \<Rightarrow> bool" where
  tok_end: "tokens [] []"
| tok_capital:
    "isUpper c \<Longrightarrow> ls \<noteq> [] \<Longrightarrow> list_all isLower ls \<Longrightarrow>
     rest = [] \<or> \<not> isLower (hd rest) \<Longrightarrow> tokens rest ts \<Longrightarrow>
     tokens (c # ls @ rest) ((c # ls) # ts)"
| tok_lower:
    "ls \<noteq> [] \<Longrightarrow> list_all isLower ls \<Longrightarrow>
     rest = [] \<or> \<not> isLower (hd rest) \<Longrightarrow> tokens rest ts \<Longrightarrow>
     tokens (ls @ rest) (ls # ts)"
| tok_digits:
    "ds \<noteq> [] \<Longrightarrow> list_all isDigit ds \<Longrightarrow>
     rest = [] \<or> \<not> isDigit (hd rest) \<Longrightarrow> tokens rest ts \<Longrightarrow>
     tokens (ds @ rest) (ds # ts)"
| tok_drop:
    "\<not> isLower c \<Longrightarrow> \<not> isDigit c \<Longrightarrow>
     (isUpper c \<longrightarrow> rest = [] \<or> \<not> isLower (hd rest)) \<Longrightarrow> tokens rest ts \<Longrightarrow>
     tokens (c # rest) ts"

text \<open>The input has a match of the regular expression at some position.\<close>

definition hasRun :: "string \<Rightarrow> bool" where
  "hasRun name = list_ex (\<lambda>i. matchAt (drop i name) \<noteq> None) [0..<length name]"

subsection \<open>Route trees\<close>

text \<open>
  A route object of the configuration: an optional \<open>path\<close> and an optional nested
  \<open>routes\<close> array (\<open>None\<close> is a missing field).
\<close>

datatype Route = Route (path: "string option") (routes: "Route list option")

text \<open>The tree node \<open>{title, value, key, children}\<close> built from a route.\<close>

datatype RouteNode =
  RouteNode (title: string) (nvalue: string) (key: string) (children: "RouteNode list")

text \<open>
  \<^verbatim>\<open>routes.map(item => item.path ? {...} : undefined).filter(item => item)\<close>

  \<open>mapRoutes\<close> is the \<open>map\<close> with its callback: \<open>item.path\<close> is tested for
  truthiness, so a missing path and the empty string both give \<open>undefined\<close> (here
  \<open>None\<close>); \<open>item.routes || []\<close> is the nested array or the empty one. The
  \<open>filter\<close> keeps the defined entries.
\<close>

function mapRoutes :: "Route list \<Rightarrow> RouteNode option list"
  and genRouterToTreeData :: "Route list \<Rightarrow> RouteNode list" where
  "mapRoutes [] = []"
| "mapRoutes (Route pth rs # rest) =
     (case pth of
        None \<Rightarrow> None
      | Some p \<Rightarrow>
          if p \<noteq> [] then
            Some (RouteNode p p p
              (genRouterToTreeData (case rs of None \<Rightarrow> [] | Some l \<Rightarrow> l)))
          else None) # mapRoutes rest"
| "genRouterToTreeData rts =
     concat (map (\<lambda>item. case item of None \<Rightarrow> [] | Some n \<Rightarrow> [n]) (mapRoutes rts))"
  by pat_completeness auto
termination
  by (relation "measure (\<lambda>x. case x of Inl rts \<Rightarrow> 2 * size_list size rts
                                   | Inr rts \<Rightarrow> 2 * size_list size rts + 1)")
     (auto split: option.splits)

subsection \<open>Objects used as string-keyed maps\<close>

text \<open>
  The values read from and stored in the route mapping: \<open>undefined\<close>, a route node,
  or a member inherited from \<open>Object.prototype\<close> (a function, or the prototype
  itself for \<open>__proto__\<close>; all of them truthy, none with a \<open>children\<close> field).

  An object created by an object literal is the list of its own properties in the order
  \<open>Object.keys\<close> and the spread enumerate them: the keys that are array indices
  first, in ascending numeric order, then the other keys in the order of their creation.
  \<open>getProp\<close> is the read \<open>obj[k]\<close>, which falls back to the prototype for a key
  that is not an own property; \<open>setProp\<close> is the assignment \<open>obj[k] = v\<close> (never
  used with the key \<open>__proto__\<close> here: the assignment in \<open>reduceData\<close> is guarded
  by the falsiness of \<open>pre[key]\<close>, and the one in \<open>depthRouterConfig\<close> writes keys
  that start with a slash); \<open>spread\<close> is the literal \<open>{...a, ...b}\<close>.
\<close>

datatype jsval = Undefined | ProtoMember | Node RouteNode

type_synonym jsobject = "(string \<times> jsval) list"

definition protoNames :: "string list" where
  "protoNames =
     [''constructor'', ''__defineGetter__'', ''__defineSetter__'', ''hasOwnProperty'',
      ''__lookupGetter__'', ''__lookupSetter__'', ''isPrototypeOf'',
      ''propertyIsEnumerable'', ''toString'', ''valueOf'', ''__proto__'',
      ''toLocaleString'']"

definition getProp :: "jsobject \<Rightarrow> string \<Rightarrow> jsval" where
  "getProp obj k =
     (case map_of obj k of
        Some v \<Rightarrow> v
      | None \<Rightarrow> if k \<in> set protoNames then ProtoMember else Undefined)"

definition truthy :: "jsval \<Rightarrow> bool" where
  "truthy v = (v \<noteq> Undefined)"

text \<open>
  A key is an array index when it is the canonical decimal numeral of an integer below
  \<open>2^32 - 1\<close>.
\<close>

definition decimal :: "string \<Rightarrow> int" where
  "decimal k = foldl (\<lambda>a c. 10 * a + (of_char c - 48)) 0 k"

definition arrayIndex :: "string \<Rightarrow> int option" where
  "arrayIndex k =
     (if k \<noteq> [] \<and> list_all isDigit k \<and> (if hd k = CHR ''0'' then k = ''0'' else True)
         \<and> decimal k < 4294967295
      then Some (decimal k) else None)"

fun insertIndex :: "int \<Rightarrow> string \<Rightarrow> jsval \<Rightarrow> jsobject \<Rightarrow> jsobject" where
  "insertIndex n k v [] = [(k, v)]"
| "insertIndex n k v ((k', v') # rest) =
     (case arrayIndex k' of
        Some n' \<Rightarrow>
          if n' < n then (k', v') # insertIndex n k v rest
          else (k, v) # (k', v') # rest
      | None \<Rightarrow> (k, v) # (k', v') # rest)"

fun updateProp :: "string \<Rightarrow> jsval \<Rightarrow> jsobject \<Rightarrow> jsobject" where
  "updateProp k v [] = []"
| "updateProp k v ((k', v') # rest) =
     (if k' = k then (k', v) else (k', v')) # updateProp k v rest"

definition setProp :: "jsobject \<Rightarrow> string \<Rightarrow> jsval \<Rightarrow> jsobject" where
  "setProp obj k v =
     (if k \<in> set (map fst obj)
      then updateProp k v obj
      else (case arrayIndex k of
              Some n \<Rightarrow> insertIndex n k v obj
            | None \<Rightarrow> obj @ [(k, v)]))"

definition spread :: "jsobject \<Rightarrow> jsobject \<Rightarrow> jsobject" where
  "spread a b = foldl (\<lambda>obj (k, v). setProp obj k v) [] (a @ b)"

subsection \<open>reduceData, depthRouterConfig and routeExists\<close>

text \<open>
  \<^verbatim>\<open>treeData.reduce((pre, current) => { ... return {...pre, ...childrenKeys}; }, {})\<close>

  \<open>reduceLoop\<close> is the \<open>reduce\<close> with its callback, from the accumulator \<open>pre\<close>
  over the remaining nodes; the recursive call \<open>reduceData(current.children)\<close> starts
  from the empty object.
\<close>

fun reduceLoop :: "jsobject \<Rightarrow> RouteNode list \<Rightarrow> jsobject" where
  "reduceLoop pre [] = pre"
| "reduceLoop pre (RouteNode t v k cs # rest) =
     (let current = RouteNode t v k cs;
          router = getProp pre (key current);
          childrenKeys = reduceLoop [] (children current);
          pre' = (if \<not> truthy router then setProp pre (key current) (Node current)
                  else pre)
      in reduceLoop (spread pre' childrenKeys) rest)"

definition reduceData :: "RouteNode list \<Rightarrow> jsobject" where
  "reduceData treeData = reduceLoop [] treeData"

text \<open>The keys of the nodes of a forest, descendants included.\<close>

fun allKeys :: "RouteNode list \<Rightarrow> string list" where
  "allKeys [] = []"
| "allKeys (RouteNode t v k cs # rest) = k # allKeys cs @ allKeys rest"

text \<open>
  The prefix pass of \<open>depthRouterConfig\<close> for one key:
  \<^verbatim>\<open>key.split('/').filter(routerKey => routerKey).forEach((_, index, array) => {
    const routerKey = array.slice(0, index).join('/');
    if (routerKey) { routerConfig[`/${routerKey}`] = routerConfig[key]; } })\<close>

  \<open>forEachIndex\<close> runs the callback over the indices, \<open>mapKeys\<close> is the outer
  \<open>map\<close> over the snapshot \<open>Object.keys(routerConfig)\<close>, threading the mutated
  mapping; it returns the mapped array and the final mapping. The final \<open>filter\<close>
  keeps the items that have a non-empty \<open>children\<close> array.
\<close>

fun forEachIndex :: "jsobject \<Rightarrow> string \<Rightarrow> string list \<Rightarrow> nat list \<Rightarrow> jsobject" where
  "forEachIndex routerConfig k array [] = routerConfig"
| "forEachIndex routerConfig k array (index # rest) =
     (let routerKey = join ''/'' (take index array)
      in forEachIndex
           (if routerKey \<noteq> []
            then setProp routerConfig (CHR ''/'' # routerKey) (getProp routerConfig k)
            else routerConfig)
           k array rest)"

definition prefixPass :: "jsobject \<Rightarrow> string \<Rightarrow> jsobject" where
  "prefixPass routerConfig k =
     (let array = filter (\<lambda>routerKey. routerKey \<noteq> []) (split k)
      in forEachIndex routerConfig k array [0..<length array])"

fun mapKeys :: "jsobject \<Rightarrow> string list \<Rightarrow> jsval list \<times> jsobject" where
  "mapKeys routerConfig [] = ([], routerConfig)"
| "mapKeys routerConfig (k # ks) =
     (let routerConfig' = prefixPass routerConfig k;
          item = getProp routerConfig' k;
          (items, final) = mapKeys routerConfig' ks
      in (item # items, final))"

definition hasChildren :: "jsval \<Rightarrow> bool" where
  "hasChildren item = (case item of Node n \<Rightarrow> children n \<noteq> [] | _ \<Rightarrow> False)"

definition depthRouterConfig :: "Route list \<Rightarrow> jsval list" where
  "depthRouterConfig rts =
     (let routerConfig = reduceData (genRouterToTreeData rts)
      in filter hasChildren (fst (mapKeys routerConfig (map fst routerConfig))))"

definition routeExists :: "string \<Rightarrow> Route list \<Rightarrow> bool" where
  "routeExists p rts =
     (let routerConfig = reduceData (genRouterToTreeData rts)
      in if truthy (getProp routerConfig p) then True else False)"

text \<open>Every value of a mapping is a route node.\<close>

definition isNode :: "jsval \<Rightarrow> bool" where
  "isNode v = (case v of Node n \<Rightarrow> True | _ \<Rightarrow> False)"

definition allNodes :: "jsobject \<Rightarrow> bool" where
  "allNodes obj = list_all (\<lambda>(k, v). isNode v) obj"

text \<open>
  The keys the prefix pass of a key writes: a slash and the first \<open>index\<close> segments
  joined, for every index whose joined prefix is not the empty string.
\<close>

definition ancestorKeys :: "string \<Rightarrow> string list" where
  "ancestorKeys k =
     (let array = filter (\<lambda>routerKey. routerKey \<noteq> []) (split k)
      in map (\<lambda>index. CHR ''/'' # join ''/'' (take index array))
           (filter (\<lambda>index. join ''/'' (take index array) \<noteq> []) [0..<length array]))"

text \<open>No key of the list is among the keys written by the prefix pass of a key before it.\<close>

fun noLaterAncestor :: "string list \<Rightarrow> bool" where
  "noLaterAncestor [] = True"
| "noLaterAncestor (k # ks) =
     (list_all (\<lambda>k'. k' \<notin> set (ancestorKeys k)) ks \<and> noLaterAncestor ks)"

subsection \<open>printBlocks\<close>

text \<open>
  A block descriptor: its \<open>type\<close> (\<open>block\<close>, \<open>dir\<close> or anything else), its \<open>path\<close>,
  an optional \<open>previewUrl\<close> and, for a directory, the nested \<open>blocks\<close> (\<open>None\<close> is a
  missing field). The printed entry is \<open>{name, value, key}\<close>.
\<close>

datatype descriptor =
  Descriptor (blockType: string) (blockPath: string) (previewUrl: "string option")
    (blocks: "descriptor list option")

datatype choice = Choice (choiceName: string) (choiceValue: string) (choiceKey: string)

text \<open>
  The functions of other packages that \<open>printBlocks\<close> calls are parameters:
  \<open>pathJoin a b\<close> is \<open>join(a, b)\<close> of the \<open>path\<close> module, \<open>cyan\<close> is \<open>chalk.cyan\<close> and
  \<open>terminalLink\<close> the function of that name.
\<close>

record collaborators =
  pathJoin :: "string \<Rightarrow> string \<Rightarrow> string"
  cyan :: "string \<Rightarrow> string"
  terminalLink :: "string \<Rightarrow> string \<Rightarrow> string"

text \<open>The two non-ASCII literals of the source, as their UTF-8 bytes.\<close>

definition packageEmoji :: string where
  "packageEmoji = [CHR 0xF0, CHR 0x9F, CHR 0x93, CHR 0xA6]"

definition previewLabel :: string where
  "previewLabel = [CHR 0xE9, CHR 0xA2, CHR 0x84, CHR 0xE8, CHR 0xA7, CHR 0x88]"

text \<open>A value in a template literal: \<open>undefined\<close> prints as the word.\<close>

definition template :: "string option \<Rightarrow> string" where
  "template v = (case v of None \<Rightarrow> ''undefined'' | Some s \<Rightarrow> s)"

text \<open>
  \<open>loopBlocks\<close> is the inner function with its \<open>forEach\<close>; \<open>blockArray\<close>, which the
  source mutates, is passed along and returned. A directory without \<open>blocks\<close> makes
  \<open>blocks.forEach\<close> throw. The recursive call passes the directory's own path as the
  new \<open>parentPath\<close>.
\<close>

function loopBlocks ::
  "collaborators \<Rightarrow> bool \<Rightarrow> descriptor list \<Rightarrow> string \<Rightarrow> choice list \<Rightarrow> exn + choice list"
where
  "loopBlocks E hasLink [] parentPath blockArray = Inr blockArray"
| "loopBlocks E hasLink (Descriptor ty p url bs # rest) parentPath blockArray =
     (let blockArray' =
        (if ty = ''block'' then
           (let blockName = pathJoin E parentPath p;
                name = packageEmoji @ ''  '' @ cyan E blockName @ ''  '';
                name' =
                  (if hasLink then
                     name @ terminalLink E previewLabel
                       (''https://preview.pro.ant.design/'' @ template url)
                   else name)
            in blockArray @ [Choice name' blockName blockName])
         else blockArray)
      in if ty = ''dir'' then
           (case bs of
              None \<Rightarrow> Inl TypeError
            | Some inner \<Rightarrow>
                (case loopBlocks E hasLink inner p blockArray' of
                   Inl e \<Rightarrow> Inl e
                 | Inr blockArray'' \<Rightarrow> loopBlocks E hasLink rest parentPath blockArray''))
         else loopBlocks E hasLink rest parentPath blockArray')"
  by pat_completeness auto
termination
  by (relation "measure (\<lambda>(E, hasLink, bs, parentPath, blockArray). size_list size bs)") auto

definition printBlocks :: "collaborators \<Rightarrow> descriptor list \<Rightarrow> bool \<Rightarrow> exn + choice list" where
  "printBlocks E bs hasLink = loopBlocks E hasLink bs [] []"

text \<open>
  The number of descriptors of type \<open>block\<close> in a tree, where the children of a node are
  the \<open>blocks\<close> of a directory.
\<close>

fun countBlocks :: "descriptor list \<Rightarrow> nat" where
  "countBlocks [] = 0"
| "countBlocks (Descriptor ty p url bs # rest) =
     (if ty = ''block'' then 1 else 0)
     + (if ty = ''dir'' then (case bs of None \<Rightarrow> 0 | Some inner \<Rightarrow> countBlocks inner)
        else 0)
     + countBlocks rest"

text \<open>Every directory of the tree has its \<open>blocks\<close>.\<close>

fun dirsHaveBlocks :: "descriptor list \<Rightarrow> bool" where
  "dirsHaveBlocks [] = True"
| "dirsHaveBlocks (Descriptor ty p url bs # rest) =
     ((if ty = ''dir'' then
         (case bs of None \<Rightarrow> False | Some inner \<Rightarrow> dirsHaveBlocks inner)
       else True)
      \<and> dirsHaveBlocks rest)"

text \<open>
  The values the specification describes: the paths of all the ancestor directories of a
  block joined with the block's own path, in traversal order.
\<close>

fun ancestorPaths :: "(string \<Rightarrow> string \<Rightarrow> string) \<Rightarrow> descriptor list \<Rightarrow> string \<Rightarrow> string list" where
  "ancestorPaths pj [] parentPath = []"
| "ancestorPaths pj (Descriptor ty p url bs # rest) parentPath =
     (if ty = ''block'' then [pj parentPath p] else [])
     @ (if ty = ''dir'' then
          (case bs of
             None \<Rightarrow> []
           | Some inner \<Rightarrow> ancestorPaths pj inner (pj parentPath p))
        else [])
     @ ancestorPaths pj rest parentPath"

text \<open>
  The values the code computes: the path of the directory a block stands in (the empty
  string at the top level) joined with the block's own path.
\<close>

fun parentPaths :: "(string \<Rightarrow> string \<Rightarrow> string) \<Rightarrow> descriptor list \<Rightarrow> string \<Rightarrow> string list" where
  "parentPaths pj [] parentPath = []"
| "parentPaths pj (Descriptor ty p url bs # rest) parentPath =
     (if ty = ''block'' then [pj parentPath p] else [])
     @ (if ty = ''dir'' then
          (case bs of
             None \<Rightarrow> []
           | Some inner \<Rightarrow> parentPaths pj inner p)
        else [])
     @ parentPaths pj rest parentPath"

text \<open>
  A model of \<open>path.join\<close> of Node.js on POSIX, which is not code of this repository: the
  non-empty arguments are joined with a slash and the result is normalized (empty and
  \<open>.\<close> segments are dropped, a \<open>..\<close> segment removes the segment before it), keeping a
  leading and a trailing slash.
\<close>

fun normalizeSegments :: "bool \<Rightarrow> string list \<Rightarrow> string list \<Rightarrow> string list" where
  "normalizeSegments allowAboveRoot res [] = res"
| "normalizeSegments allowAboveRoot res (seg # rest) =
     normalizeSegments allowAboveRoot
       (if seg = [] \<or> seg = ''.'' then res
        else if seg = ''..'' then
          (if res \<noteq> [] \<and> last res \<noteq> ''..'' then butlast res
           else if allowAboveRoot then res @ [''..'']
           else res)
        else res @ [seg])
       rest"

definition posixNormalize :: "string \<Rightarrow> string" where
  "posixNormalize p =
     (if p = [] then ''.''
      else
        (let isAbsolute = (hd p = CHR ''/'');
             trailingSeparator = (last p = CHR ''/'');
             body = join ''/'' (normalizeSegments (\<not> isAbsolute) [] (split p))
         in if body = [] then
              (if isAbsolute then ''/'' else if trailingSeparator then ''./'' else ''.'')
            else
              (if isAbsolute then ''/'' else '''') @ body
                @ (if trailingSeparator then ''/'' else '''')))"

definition posixJoin :: "string \<Rightarrow> string \<Rightarrow> string" where
  "posixJoin a b =
     (let joined = join ''/'' (filter (\<lambda>arg. arg \<noteq> []) [a, b])
      in if joined = [] then ''.'' else posixNormalize joined)"

subsection \<open>gitUpdate\<close>

text \<open>
  The context of the clone, and what the function does to the outside: the calls of the
  spinner and the git commands it runs, in order.
\<close>

text \<open>(The field \<open>id\<close> of the context is \<open>id'\<close> here.)\<close>

record ctx =
  repo :: string
  id' :: string
  branch :: string
  blocksTempPath :: string
  templateTmpDirPath :: string

datatype event =
  SpinnerStart string
| SpinnerSucceed
| SpinnerFail
| Exec "string list" string

text \<open>
  The state is the outside world, of any type \<open>'w\<close>, and the log of events. The outside
  is a parameter: \<open>execa w args cwd\<close> runs git in the world \<open>w\<close> and gives the message
  of the error it rejects with (\<open>None\<close> when the command exits with zero) and the new
  world; \<open>existsSync w p\<close> tells whether the file exists.
\<close>

type_synonym 'w state = "'w \<times> event list"

definition emit :: "event \<Rightarrow> 'w state \<Rightarrow> 'w state" where
  "emit ev s = (fst s, snd s @ [ev])"

definition exec ::
  "('w \<Rightarrow> string list \<Rightarrow> string \<Rightarrow> string option \<times> 'w) \<Rightarrow> string list \<Rightarrow> string \<Rightarrow> 'w state
     \<Rightarrow> string option \<times> 'w state" where
  "exec execa args cwd s =
     (let (r, w') = execa (fst s) args cwd in (r, (w', snd s @ [Exec args cwd])))"

text \<open>
  \<open>String(e)\<close> for the error of a failed command, an \<open>Error\<close> with the message \<open>m\<close>;
  \<open>new Error(e)\<close> takes it as its message.
\<close>

definition errorToString :: "string \<Rightarrow> string" where
  "errorToString m = (if m = [] then ''Error'' else ''Error: '' @ m)"

text \<open>\<^verbatim>\<open>catch (e) { spinner.fail(); throw new Error(e); }\<close>\<close>

definition rethrow :: "string \<Rightarrow> 'w state \<Rightarrow> (exn + unit) \<times> 'w state" where
  "rethrow e s = (Inl (Error (errorToString e)), emit SpinnerFail s)"

text \<open>\<^verbatim>\<open>existsSync(join(templateTmpDirPath, '.gitmodules'))\<close>\<close>

definition isSubmodule ::
  "('w \<Rightarrow> string \<Rightarrow> bool) \<Rightarrow> (string \<Rightarrow> string \<Rightarrow> string) \<Rightarrow> 'w \<Rightarrow> string \<Rightarrow> bool" where
  "isSubmodule existsSync pj w dir = existsSync w (pj dir ''.gitmodules'')"

text \<open>The emoji of the spinner messages, as their UTF-8 bytes.\<close>

definition fireEngine :: string where
  "fireEngine = [CHR 0xF0, CHR 0x9F, CHR 0x9A, CHR 0x92]"

definition lorry :: string where
  "lorry = [CHR 0xF0, CHR 0x9F, CHR 0x9A, CHR 0x9B]"

definition rocket :: string where
  "rocket = [CHR 0xF0, CHR 0x9F, CHR 0x9A, CHR 0x80]"

definition eyes :: string where
  "eyes = [CHR 0xF0, CHR 0x9F, CHR 0x91, CHR 0x80]"

definition gitUpdate ::
  "('w \<Rightarrow> string list \<Rightarrow> string \<Rightarrow> string option \<times> 'w) \<Rightarrow> ('w \<Rightarrow> string \<Rightarrow> bool) \<Rightarrow>
   (string \<Rightarrow> string \<Rightarrow> string) \<Rightarrow> ctx \<Rightarrow> 'w state \<Rightarrow> (exn + unit) \<times> 'w state" where
  "gitUpdate execa existsSync pj c s0 =
     (let dir = templateTmpDirPath c;
          (r1, s1) = exec execa [''fetch''] dir
                       (emit (SpinnerStart (fireEngine @ ''  Git fetch'')) s0)
      in case r1 of
           Some e \<Rightarrow> rethrow e s1
         | None \<Rightarrow>
             (let (r2, s2) = exec execa [''checkout'', branch c] dir
                    (emit (SpinnerStart (lorry @ ''  Git checkout '' @ branch c))
                       (emit SpinnerSucceed s1))
              in case r2 of
                   Some e \<Rightarrow> rethrow e s2
                 | None \<Rightarrow>
                     (let (r3, s3) = exec execa [''pull''] dir
                            (emit (SpinnerStart (rocket @ ''  Git pull''))
                               (emit SpinnerSucceed s2))
                      in case r3 of
                           Some e \<Rightarrow> rethrow e s3
                         | None \<Rightarrow>
                             if isSubmodule existsSync pj (fst s3) dir then
                               (let (r4, s4) = exec execa [''submodule'', ''init''] dir
                                      (emit SpinnerSucceed s3)
                                in case r4 of
                                     Some e \<Rightarrow> rethrow e s4
                                   | None \<Rightarrow>
                                       (let (r5, s5) =
                                          exec execa
                                            [''submodule'', ''update'', ''--recursive''] dir
                                            (emit (SpinnerStart (eyes @ ''  update submodule''))
                                               s4)
                                        in case r5 of
                                             Some e \<Rightarrow> rethrow e s5
                                           | None \<Rightarrow> (Inr (), emit SpinnerSucceed s5)))
                             else (Inr (), emit SpinnerSucceed s3))))"

text \<open>The git commands of a log, in the order they ran.\<close>

fun commands :: "event list \<Rightarrow> string list list" where
  "commands [] = []"
| "commands (Exec args cwd # evs) = args # commands evs"
| "commands (ev # evs) = commands evs"

text \<open>
  A world for examples: the list of the commands that fail, each with its message, and
  whether the marker file is there; running a command does not change it.
\<close>

definition scriptedExeca ::
  "(string list \<times> string) list \<times> bool \<Rightarrow> string list \<Rightarrow> string
     \<Rightarrow> string option \<times> ((string list \<times> string) list \<times> bool)" where
  "scriptedExeca w args cwd = (map_of (fst w) args, w)"

definition scriptedExists :: "(string list \<times> string) list \<times> bool \<Rightarrow> string \<Rightarrow> bool" where
  "scriptedExists w p = snd w"

definition exampleCtx :: ctx where
  "exampleCtx =
     \<lparr>repo = ''https://github.com/umijs/umi-blocks'', id' = ''umi-blocks'',
      branch = ''master'', blocksTempPath = ''/tmp/blocks'',
      templateTmpDirPath = ''/tmp/blocks/umi-blocks''\<rparr>"

section \<open>Properties\<close>

subsection \<open>Character classes and runs\<close>

lemma upper_not_lower: "isUpper c \<Longrightarrow> \<not> isLower c"
  by (simp add: isUpper_def isLower_def)

lemma digit_not_lower: "isDigit c \<Longrightarrow> \<not> isLower c"
  by (simp add: isDigit_def isLower_def)

lemma digit_not_upper: "isDigit c \<Longrightarrow> \<not> isUpper c"
  by (simp add: isDigit_def isUpper_def)

lemma lowerRun_Some: "lowerRun s = Some m \<Longrightarrow> m = takeWhile isLower s \<and> m \<noteq> []"
  by (auto simp: lowerRun_def Let_def split: if_splits)

lemma digitRun_Some: "digitRun s = Some m \<Longrightarrow> m = takeWhile isDigit s \<and> m \<noteq> []"
  by (auto simp: digitRun_def Let_def split: if_splits)

lemma drop_takeWhile: "drop (length (takeWhile P s)) s = dropWhile P s"
  by (induction s) auto

lemma run_maximal: "dropWhile P s = [] \<or> \<not> P (hd (dropWhile P s))"
  by (metis hd_dropWhile)

lemma list_all_takeWhile: "list_all P (takeWhile P s)"
  by (induction s) auto

lemma tokens_lowerRun:
  assumes "lowerRun s = Some m" and "tokens (drop (length m) s) ts"
  shows "tokens s (m # ts)"
proof -
  from assms(1) have m: "m = takeWhile isLower s" "m \<noteq> []"
    using lowerRun_Some by blast+
  have rest: "drop (length m) s = dropWhile isLower s"
    unfolding m(1) by (rule drop_takeWhile)
  have "tokens (m @ dropWhile isLower s) (m # ts)"
    using m(2) list_all_takeWhile [of isLower s, folded m(1)] run_maximal [of isLower s]
      assms(2) [unfolded rest]
    by (rule tok_lower)
  then show ?thesis by (simp add: m(1))
qed

lemma tokens_digitRun:
  assumes "digitRun s = Some m" and "tokens (drop (length m) s) ts"
  shows "tokens s (m # ts)"
proof -
  from assms(1) have m: "m = takeWhile isDigit s" "m \<noteq> []"
    using digitRun_Some by blast+
  have rest: "drop (length m) s = dropWhile isDigit s"
    unfolding m(1) by (rule drop_takeWhile)
  have "tokens (m @ dropWhile isDigit s) (m # ts)"
    using m(2) list_all_takeWhile [of isDigit s, folded m(1)] run_maximal [of isDigit s]
      assms(2) [unfolded rest]
    by (rule tok_digits)
  then show ?thesis by (simp add: m(1))
qed

lemma tokens_capital:
  assumes "isUpper c" and "lowerRun cs = Some ls" and "tokens (drop (length ls) cs) ts"
  shows "tokens (c # cs) ((c # ls) # ts)"
proof -
  from assms(2) have m: "ls = takeWhile isLower cs" "ls \<noteq> []"
    using lowerRun_Some by blast+
  have rest: "drop (length ls) cs = dropWhile isLower cs"
    unfolding m(1) by (rule drop_takeWhile)
  have "tokens (c # ls @ dropWhile isLower cs) ((c # ls) # ts)"
    using assms(1) m(2) list_all_takeWhile [of isLower cs, folded m(1)]
      run_maximal [of isLower cs] assms(3) [unfolded rest]
    by (rule tok_capital)
  then show ?thesis by (simp add: m(1))
qed

lemma tokens_step:
  assumes "matchAt s = Some m" and "tokens (drop (length m) s) ts"
  shows "tokens s (m # ts)"
proof (cases "wordAlt s")
  case None
  with assms(1) have "digitRun s = Some m" by (simp add: matchAt_def)
  with assms(2) show ?thesis by (rule tokens_digitRun [rotated])
next
  case (Some w)
  with assms(1) have w: "wordAlt s = Some m" by (simp add: matchAt_def)
  show ?thesis
  proof (cases s)
    case Nil
    with w show ?thesis by simp
  next
    case (Cons c cs)
    show ?thesis
    proof (cases "isUpper c \<and> lowerRun cs \<noteq> None")
      case True
      then obtain ls where ls: "lowerRun cs = Some ls" by auto
      with True w Cons have m: "m = c # ls" by simp
      from assms(2) have "tokens (drop (length ls) cs) ts" by (simp add: m Cons)
      with True ls show ?thesis unfolding m Cons by (intro tokens_capital) auto
    next
      case False
      with w Cons have "lowerRun s = Some m" by (auto split: option.splits if_splits)
      with assms(2) show ?thesis by (rule tokens_lowerRun [rotated])
    qed
  qed
qed

lemma tokens_skip:
  assumes "matchAt (c # cs) = None" and "tokens cs ts"
  shows "tokens (c # cs) ts"
proof -
  from assms(1) have w: "wordAlt (c # cs) = None" and d: "digitRun (c # cs) = None"
    by (auto simp: matchAt_def split: option.splits)
  from w have nl: "\<not> isLower c"
    by (auto simp: lowerRun_def Let_def split: if_splits option.splits)
  from d have nd: "\<not> isDigit c"
    by (auto simp: digitRun_def Let_def split: if_splits)
  from w have lone: "isUpper c \<longrightarrow> cs = [] \<or> \<not> isLower (hd cs)"
    by (cases cs) (auto simp: lowerRun_def Let_def split: if_splits option.splits)
  from nl nd lone assms(2) show ?thesis by (rule tok_drop)
qed

lemma tokens_matchAll: "tokens s (matchAll s)"
proof (induction s rule: matchAll.induct)
  case 1
  show ?case by (simp add: tok_end)
next
  case (2 c cs)
  show ?case
  proof (cases "matchAt (c # cs)")
    case None
    with 2 have "tokens cs (matchAll cs)" by simp
    with None have "tokens (c # cs) (matchAll cs)" by (rule tokens_skip)
    with None show ?thesis by simp
  next
    case (Some m)
    with 2 have "tokens (drop (length m) (c # cs)) (matchAll (drop (length m) (c # cs)))"
      by simp
    with Some have "tokens (c # cs) (m # matchAll (drop (length m) (c # cs)))"
      by (rule tokens_step)
    with Some show ?thesis by simp
  qed
qed

text \<open>The specification's tokenization determines the match list.\<close>

lemma takeWhile_run: "list_all P ls \<Longrightarrow> rest = [] \<or> \<not> P (hd rest) \<Longrightarrow> takeWhile P (ls @ rest) = ls"
  by (induction ls) (cases rest; auto)+

lemma lowerRun_run:
  "ls \<noteq> [] \<Longrightarrow> list_all isLower ls \<Longrightarrow> rest = [] \<or> \<not> isLower (hd rest) \<Longrightarrow>
   lowerRun (ls @ rest) = Some ls"
  by (simp add: lowerRun_def takeWhile_run)

lemma digitRun_run:
  "ds \<noteq> [] \<Longrightarrow> list_all isDigit ds \<Longrightarrow> rest = [] \<or> \<not> isDigit (hd rest) \<Longrightarrow>
   digitRun (ds @ rest) = Some ds"
  by (simp add: digitRun_def takeWhile_run)

lemma lowerRun_None: "s = [] \<or> \<not> isLower (hd s) \<Longrightarrow> lowerRun s = None"
  by (cases s) (auto simp: lowerRun_def)

lemma digitRun_None: "s = [] \<or> \<not> isDigit (hd s) \<Longrightarrow> digitRun s = None"
  by (cases s) (auto simp: digitRun_def)

lemma matchAll_Some: "matchAt s = Some m \<Longrightarrow> matchAll s = m # matchAll (drop (length m) s)"
  by (cases s) (auto simp: matchAt_def digitRun_def)

lemma tokens_unique: "tokens s ts \<Longrightarrow> ts = matchAll s"
proof (induction rule: tokens.induct)
  case tok_end
  show ?case by simp
next
  case (tok_capital c ls rest ts)
  then have "lowerRun (ls @ rest) = Some ls" by (intro lowerRun_run)
  with tok_capital have "matchAt (c # ls @ rest) = Some (c # ls)"
    by (simp add: matchAt_def)
  from matchAll_Some [OF this] tok_capital.IH show ?case by simp
next
  case (tok_lower ls rest ts)
  then have l: "lowerRun (ls @ rest) = Some ls" by (intro lowerRun_run)
  from tok_lower obtain c cs where ls: "ls = c # cs" by (cases ls) auto
  with tok_lower have "isLower c" by simp
  then have "\<not> isUpper c" using upper_not_lower by blast
  with l have "matchAt (ls @ rest) = Some ls"
    by (simp add: matchAt_def ls)
  from matchAll_Some [OF this] tok_lower.IH show ?case by simp
next
  case (tok_digits ds rest ts)
  then have d: "digitRun (ds @ rest) = Some ds" by (intro digitRun_run)
  from tok_digits obtain c cs where ds: "ds = c # cs" by (cases ds) auto
  with tok_digits have c: "isDigit c" by simp
  then have "lowerRun (ds @ rest) = None"
    by (intro lowerRun_None) (simp add: ds digit_not_lower)
  with c d have "matchAt (ds @ rest) = Some ds"
    by (simp add: matchAt_def ds digit_not_upper)
  from matchAll_Some [OF this] tok_digits.IH show ?case by simp
next
  case (tok_drop c rest ts)
  then have "lowerRun (c # rest) = None" "digitRun (c # rest) = None"
    by (simp_all add: lowerRun_None digitRun_None)
  moreover from tok_drop have "isUpper c \<longrightarrow> lowerRun rest = None"
    by (simp add: lowerRun_None)
  ultimately have "matchAt (c # rest) = None"
    by (simp add: matchAt_def)
  with tok_drop.IH show ?case by simp
qed

subsection \<open>genBlockName\<close>

lemma matchAt_None_iff:
  "matchAt (c # cs) = None \<longleftrightarrow>
     \<not> isLower c \<and> \<not> isDigit c \<and> (isUpper c \<longrightarrow> cs = [] \<or> \<not> isLower (hd cs))"
  by (cases cs)
     (auto simp: matchAt_def lowerRun_def digitRun_def Let_def upper_not_lower
           split: option.splits if_splits)

lemma matchAt_Nil: "matchAt [] = None"
  by (simp add: matchAt_def digitRun_def)

lemma matchAll_Nil_iff: "matchAll s = [] \<longleftrightarrow> (\<forall>c \<in> set s. \<not> isLower c \<and> \<not> isDigit c)"
proof (induction s rule: matchAll.induct)
  case 1
  show ?case by simp
next
  case (2 c cs)
  show ?case
  proof (cases "matchAt (c # cs)")
    case None
    with 2 have ih: "matchAll cs = [] \<longleftrightarrow> (\<forall>c \<in> set cs. \<not> isLower c \<and> \<not> isDigit c)"
      by simp
    from None have "\<not> isLower c \<and> \<not> isDigit c" by (simp add: matchAt_None_iff)
    with None ih show ?thesis by simp
  next
    case (Some m)
    then have "\<not> (\<not> isLower c \<and> \<not> isDigit c \<and> (isUpper c \<longrightarrow> cs = [] \<or> \<not> isLower (hd cs)))"
      using matchAt_None_iff [of c cs] by simp
    then have "\<exists>x \<in> set (c # cs). isLower x \<or> isDigit x"
      by (cases cs) auto
    with Some show ?thesis by auto
  qed
qed

lemma hasRun_iff: "hasRun s \<longleftrightarrow> (\<exists>c \<in> set s. isLower c \<or> isDigit c)"
proof
  assume "hasRun s"
  then obtain i where i: "i < length s" "matchAt (drop i s) \<noteq> None"
    by (auto simp: hasRun_def list_ex_iff)
  then obtain c cs where d: "drop i s = c # cs"
    by (cases "drop i s") auto
  with i have "\<exists>x \<in> set (c # cs). isLower x \<or> isDigit x"
    using matchAt_None_iff [of c cs] by (cases cs) auto
  moreover have "set (c # cs) \<subseteq> set s"
    using set_drop_subset [of i s] d by simp
  ultimately show "\<exists>c \<in> set s. isLower c \<or> isDigit c" by blast
next
  assume "\<exists>c \<in> set s. isLower c \<or> isDigit c"
  then obtain i where i: "i < length s" "isLower (s ! i) \<or> isDigit (s ! i)"
    by (auto simp: in_set_conv_nth)
  then have "drop i s = s ! i # drop (Suc i) s"
    by (simp add: Cons_nth_drop_Suc)
  with i have "matchAt (drop i s) \<noteq> None"
    using matchAt_None_iff [of "s ! i" "drop (Suc i) s"] by auto
  with i show "hasRun s" by (auto simp: hasRun_def list_ex_iff)
qed

text \<open>
  Claim C3, amended. For every input string the matches of \<open>genBlockName\<close> are the
  tokens of the specification: a capital letter immediately followed by lowercase letters
  is one token, a capital with no lowercase letter behind it is dropped, a maximal run of
  digits is one token. There is exactly one such token list. When it is not empty, the
  result is the lower-cased tokens joined with a slash; when it is empty, the call throws
  a \<open>TypeError\<close> and returns no string. In particular AccountCenter gives
  account/center and proList gives pro/list.
\<close>

theorem genBlockName_tokenizes:
  "(\<exists>ts. tokens name ts) \<and>
   (\<forall>ts. tokens name ts \<longrightarrow>
      genBlockName name =
        (if ts = [] then Inl TypeError else Inr (join ''/'' (map toLowerCase ts)))) \<and>
   genBlockName ''AccountCenter'' = Inr ''account/center'' \<and>
   genBlockName ''proList'' = Inr ''pro/list''"
proof (intro conjI allI impI)
  show "\<exists>ts. tokens name ts" using tokens_matchAll by blast
next
  fix ts assume "tokens name ts"
  then have "ts = matchAll name" by (rule tokens_unique)
  then show "genBlockName name =
      (if ts = [] then Inl TypeError else Inr (join ''/'' (map toLowerCase ts)))"
    by (cases "matchAll name") (simp_all add: genBlockName_def)
next
  show "genBlockName ''AccountCenter'' = Inr ''account/center''" by code_simp
next
  show "genBlockName ''proList'' = Inr ''pro/list''" by code_simp
qed

theorem genBlockName_tokenizes_witness:
  "tokens ''userV2'' [''user'', ''2''] \<and> genBlockName ''userV2'' = Inr ''user/2''"
proof -
  have l: "list_all isLower ''user''" by code_simp
  have d: "list_all isDigit ''2''" by code_simp
  have v: "\<not> isLower CHR ''V''" "\<not> isDigit CHR ''V''" "\<not> isLower (hd ''2'')" by code_simp+
  have "tokens ''2'' [''2'']"
    using tok_digits [of "''2''" "[]" "[]"] d tok_end by simp
  then have "tokens ''V2'' [''2'']"
    using tok_drop [of "CHR ''V''" "''2''" "[''2'']"] v by simp
  then have t: "tokens ''userV2'' [''user'', ''2'']"
    using tok_lower [of "''user''" "''V2''" "[''2'']"] l v by simp
  moreover from t have "genBlockName ''userV2'' = Inr (join ''/'' (map toLowerCase [''user'', ''2'']))"
    using genBlockName_tokenizes [of "''userV2''"] by simp
  moreover have "join ''/'' (map toLowerCase [''user'', ''2'']) = ''user/2''" by code_simp
  ultimately show ?thesis by simp
qed

text \<open>
  Claim C3 as stated fails: it holds of every input string that the tokens are joined
  with a slash, but on the lone capital \<open>A\<close> (likewise on \<open>ABC\<close> and on the empty
  string) the token list is empty and the call does not return the empty join: it throws.
\<close>

theorem genBlockName_lone_capital_counterexample:
  "tokens ''A'' [] \<and>
   genBlockName ''A'' = Inl TypeError \<and>
   genBlockName ''A'' \<noteq> Inr (join ''/'' (map toLowerCase [])) \<and>
   genBlockName ''ABC'' = Inl TypeError \<and>
   genBlockName '''' = Inl TypeError"
proof -
  have "matchAll ''A'' = []" by code_simp
  then have "tokens ''A'' []" using tokens_matchAll [of "''A''"] by simp
  moreover have "genBlockName ''A'' = Inl TypeError" "genBlockName ''ABC'' = Inl TypeError"
    "genBlockName '''' = Inl TypeError"
    by code_simp+
  ultimately show ?thesis by simp
qed

text \<open>
  Claim C10. On an input with no match of the regular expression at any position, that
  is with no lowercase letter and no digit, \<open>genBlockName\<close> throws (a \<open>TypeError\<close>,
  from \<open>null.map\<close>); it returns a string exactly when the input has such a run.
\<close>

theorem genBlockName_throws:
  "(\<not> hasRun name \<longrightarrow> genBlockName name = Inl TypeError) \<and>
   (hasRun name \<longrightarrow> (\<exists>r. genBlockName name = Inr r)) \<and>
   hasRun name = (\<exists>c \<in> set name. isLower c \<or> isDigit c)"
proof -
  have "matchAll name = [] \<longleftrightarrow> \<not> hasRun name"
    by (simp add: matchAll_Nil_iff hasRun_iff)
  then show ?thesis
    by (cases "matchAll name") (auto simp: genBlockName_def hasRun_iff)
qed

theorem genBlockName_throws_witness:
  "\<not> hasRun '''' \<and> genBlockName '''' = Inl TypeError \<and>
   \<not> hasRun ''!?-_'' \<and> genBlockName ''!?-_'' = Inl TypeError \<and>
   hasRun ''a1'' \<and> genBlockName ''a1'' = Inr ''a/1''"
proof -
  have h: "\<not> hasRun ''''" "\<not> hasRun ''!?-_''" "hasRun ''a1''" by code_simp+
  have "genBlockName ''a1'' = Inr ''a/1''" by code_simp
  with h genBlockName_throws [of "''''"] genBlockName_throws [of "''!?-_''"]
  show ?thesis by simp
qed

subsection \<open>Objects\<close>

lemma keys_updateProp: "map fst (updateProp k v obj) = map fst obj"
  by (induction obj) auto

lemma map_of_updateProp_at:
  "map_of (updateProp k v obj) x =
     (if x = k \<and> k \<in> set (map fst obj) then Some v else map_of obj x)"
  by (induction obj) force+

lemma map_of_updateProp:
  "k \<in> set (map fst obj) \<Longrightarrow> map_of (updateProp k v obj) = (map_of obj)(k \<mapsto> v)"
  by (rule ext) (simp add: map_of_updateProp_at del: set_map)

lemma keys_insertIndex: "set (map fst (insertIndex n k v obj)) = insert k (set (map fst obj))"
  by (induction obj) (force split: option.splits)+

lemma map_of_insertIndex:
  "k \<notin> set (map fst obj) \<Longrightarrow> map_of (insertIndex n k v obj) = (map_of obj)(k \<mapsto> v)"
  by (induction obj) (auto simp: fun_eq_iff split: option.splits)

lemma map_of_append_new:
  "k \<notin> set (map fst obj) \<Longrightarrow> map_of (obj @ [(k, v)]) = (map_of obj)(k \<mapsto> v)"
  by (induction obj) (auto simp: fun_eq_iff simp del: map_of_append)

lemma map_of_setProp: "map_of (setProp obj k v) = (map_of obj)(k \<mapsto> v)"
  unfolding setProp_def
  by (cases "arrayIndex k")
     (simp_all add: map_of_updateProp map_of_insertIndex map_of_append_new
        del: set_map map_of_append)

lemma distinct_insertIndex:
  "k \<notin> set (map fst obj) \<Longrightarrow> distinct (map fst obj) \<Longrightarrow>
   distinct (map fst (insertIndex n k v obj))"
proof (induction obj)
  case Nil
  show ?case by simp
next
  case (Cons a obj)
  obtain k' v' where a: "a = (k', v')" by (cases a)
  from Cons have ih: "distinct (map fst (insertIndex n k v obj))" by simp
  from Cons.prems a have "k' \<notin> set (map fst (insertIndex n k v obj))"
    unfolding keys_insertIndex by auto
  with ih Cons.prems a show ?case
    by (cases "arrayIndex k'") auto
qed

lemma distinct_setProp:
  "distinct (map fst obj) \<Longrightarrow> distinct (map fst (setProp obj k v))"
  unfolding setProp_def
  by (cases "arrayIndex k")
     (simp_all add: keys_updateProp distinct_insertIndex del: set_map)

lemma keys_setProp: "set (map fst (setProp obj k v)) = insert k (set (map fst obj))"
  unfolding setProp_def
  by (cases "arrayIndex k")
     (auto simp: keys_updateProp keys_insertIndex simp del: set_map)

lemma getProp_setProp:
  "getProp (setProp obj k v) k' = (if k' = k then v else getProp obj k')"
  by (simp add: getProp_def map_of_setProp)

lemma map_of_setProps:
  "map_of (foldl (\<lambda>obj (k, v). setProp obj k v) obj xs) = map_of obj ++ map_of (rev xs)"
proof (induction xs arbitrary: obj)
  case Nil
  show ?case by simp
next
  case (Cons a xs)
  obtain k v where a: "a = (k, v)" by (cases a)
  show ?case
    by (simp add: Cons a map_of_setProp fun_eq_iff map_add_def split: option.splits)
qed

lemma distinct_setProps:
  "distinct (map fst obj) \<Longrightarrow> distinct (map fst (foldl (\<lambda>obj (k, v). setProp obj k v) obj xs))"
proof (induction xs arbitrary: obj)
  case Nil
  then show ?case by simp
next
  case (Cons a xs)
  obtain k v where a: "a = (k, v)" by (cases a)
  from Cons.prems have "distinct (map fst (setProp obj k v))" by (rule distinct_setProp)
  then show ?case using Cons.IH by (simp add: a)
qed

lemma distinct_spread: "distinct (map fst (spread a b))"
  unfolding spread_def by (rule distinct_setProps) simp

lemma map_of_rev_distinct: "distinct (map fst xs) \<Longrightarrow> map_of (rev xs) = map_of xs"
  by (metis distinct_rev map_of_inject_set rev_map set_rev)

lemma map_of_spread:
  "distinct (map fst a) \<Longrightarrow> distinct (map fst b) \<Longrightarrow> map_of (spread a b) = map_of a ++ map_of b"
  by (simp add: spread_def map_of_setProps map_of_rev_distinct)

subsection \<open>reduceData\<close>

lemma keys_setProps:
  "set (map fst (foldl (\<lambda>obj (k, v). setProp obj k v) obj xs)) =
     set (map fst obj) \<union> set (map fst xs)"
proof (induction xs arbitrary: obj)
  case Nil
  show ?case by simp
next
  case (Cons a xs)
  obtain k v where a: "a = (k, v)" by (cases a)
  show ?case unfolding a using Cons [of "setProp obj k v"] keys_setProp [of obj k v]
    by auto
qed

lemma keys_spread: "set (map fst (spread a b)) = set (map fst a) \<union> set (map fst b)"
  unfolding spread_def keys_setProps by auto

lemma distinct_reduceLoop:
  "distinct (map fst pre) \<Longrightarrow> distinct (map fst (reduceLoop pre ts))"
  by (induction pre ts rule: reduceLoop.induct) (simp_all add: Let_def distinct_spread)

lemma keys_reduceLoop:
  "set (map fst (reduceLoop pre ts)) \<subseteq> set (map fst pre) \<union> set (allKeys ts)"
proof (induction pre ts rule: reduceLoop.induct)
  case (1 pre)
  show ?case by simp
next
  case (2 pre t v k cs rest)
  define current where "current = RouteNode t v k cs"
  define ck where "ck = reduceLoop [] cs"
  define pre' where "pre' = (if \<not> truthy (getProp pre k) then setProp pre k (Node current) else pre)"
  have ck: "set (map fst ck) \<subseteq> set (allKeys cs)"
    using "2.IH"(1) [OF current_def refl] unfolding ck_def current_def by simp
  have pre': "set (map fst pre') \<subseteq> insert k (set (map fst pre))"
    unfolding pre'_def using keys_setProp [of pre k "Node current"] by auto
  have step: "reduceLoop pre (RouteNode t v k cs # rest) = reduceLoop (spread pre' ck) rest"
    by (simp add: Let_def pre'_def ck_def current_def)
  have "set (map fst (reduceLoop (spread pre' ck) rest))
          \<subseteq> set (map fst (spread pre' ck)) \<union> set (allKeys rest)"
    using "2.IH"(2) [OF current_def refl refl refl] 
    unfolding pre'_def ck_def current_def by (simp split: if_splits)
  then have "set (map fst (reduceLoop (spread pre' ck) rest))
          \<subseteq> set (map fst pre') \<union> set (map fst ck) \<union> set (allKeys rest)"
    unfolding keys_spread .
  moreover have "set (allKeys (RouteNode t v k cs # rest)) =
      insert k (set (allKeys cs) \<union> set (allKeys rest))"
    by simp
  ultimately show ?case unfolding step using ck pre' by blast
qed


lemma reduceLoop_step:
  "reduceLoop pre (current # rest) =
     reduceLoop
       (spread (if \<not> truthy (getProp pre (key current))
                then setProp pre (key current) (Node current) else pre)
          (reduceLoop [] (children current))) rest"
  by (cases current) (simp add: Let_def)

lemma getProp_spread_other:
  assumes "distinct (map fst a)" and "distinct (map fst b)" and "k \<notin> set (map fst b)"
  shows "getProp (spread a b) k = getProp a k"
proof -
  from assms(3) have "map_of b k = None" by (simp add: map_of_eq_None_iff)
  then show ?thesis
    by (simp add: getProp_def map_of_spread [OF assms(1,2)] map_add_def)
qed

lemma getProp_own:
  "k \<notin> set protoNames \<Longrightarrow> getProp obj k = (case map_of obj k of None \<Rightarrow> Undefined | Some v \<Rightarrow> v)"
  by (simp add: getProp_def)

lemma getProp_reduceLoop:
  assumes "distinct (map fst pre)" and "k \<notin> set (allKeys (concat (map children ts)))"
  shows "getProp (reduceLoop pre ts) k =
           (if truthy (getProp pre k) then getProp pre k
            else (case find (\<lambda>n. key n = k) ts of
                    Some n \<Rightarrow> Node n
                  | None \<Rightarrow> getProp pre k))"
  using assms
proof (induction ts arbitrary: pre)
  case Nil
  show ?case by simp
next
  case (Cons current rest)
  define ck where "ck = reduceLoop [] (children current)"
  define pre' where "pre' = (if \<not> truthy (getProp pre (key current))
                then setProp pre (key current) (Node current) else pre)"
  have step: "reduceLoop pre (current # rest) = reduceLoop (spread pre' ck) rest"
    unfolding reduceLoop_step pre'_def ck_def ..
  have allKeys_append: "\<And>xs ys. set (allKeys (xs @ ys)) = set (allKeys xs) \<union> set (allKeys ys)"
    subgoal for xs ys by (induction xs rule: allKeys.induct) auto
    done
  from Cons.prems(2) have k1: "k \<notin> set (allKeys (children current))"
    and k2: "k \<notin> set (allKeys (concat (map children rest)))"
    by (simp_all add: allKeys_append)
  have "set (map fst ck) \<subseteq> set (allKeys (children current))"
    unfolding ck_def using keys_reduceLoop [of "[]" "children current"] by simp
  with k1 have kck: "k \<notin> set (map fst ck)" by blast
  have dpre': "distinct (map fst pre')"
    unfolding pre'_def using Cons.prems(1) by (simp add: distinct_setProp)
  have dck: "distinct (map fst ck)"
    unfolding ck_def by (rule distinct_reduceLoop) simp
  have sp: "getProp (spread pre' ck) k = getProp pre' k"
    using dpre' dck kck by (rule getProp_spread_other)
  have ih: "getProp (reduceLoop (spread pre' ck) rest) k =
           (if truthy (getProp pre' k) then getProp pre' k
            else (case find (\<lambda>n. key n = k) rest of
                    Some n \<Rightarrow> Node n
                  | None \<Rightarrow> getProp pre' k))"
    using Cons.IH [OF distinct_spread k2, of pre' ck] unfolding sp .
  show ?case
  proof (cases "key current = k")
    case True
    then have "getProp pre' k = (if truthy (getProp pre k) then getProp pre k else Node current)"
      by (simp add: pre'_def getProp_setProp)
    with True show ?thesis unfolding step ih by (simp add: truthy_def)
  next
    case False
    then have "getProp pre' k = getProp pre k"
      by (simp add: pre'_def getProp_setProp)
    with False show ?thesis unfolding step ih by (auto split: option.splits)
  qed
qed

lemma allNodes_updateProp: "allNodes obj \<Longrightarrow> isNode v \<Longrightarrow> allNodes (updateProp k v obj)"
  unfolding allNodes_def by (induction obj) auto

lemma allNodes_insertIndex: "allNodes obj \<Longrightarrow> isNode v \<Longrightarrow> allNodes (insertIndex n k v obj)"
  unfolding allNodes_def by (induction obj) (auto split: option.splits)

lemma allNodes_setProp: "allNodes obj \<Longrightarrow> isNode v \<Longrightarrow> allNodes (setProp obj k v)"
  unfolding setProp_def
  by (cases "arrayIndex k")
     (simp_all add: allNodes_updateProp allNodes_insertIndex del: set_map, simp add: allNodes_def)

lemma allNodes_setProps:
  "allNodes obj \<Longrightarrow> allNodes xs \<Longrightarrow> allNodes (foldl (\<lambda>obj (k, v). setProp obj k v) obj xs)"
proof (induction xs arbitrary: obj)
  case Nil
  then show ?case by simp
next
  case (Cons a xs)
  obtain k v where a: "a = (k, v)" by (cases a)
  from Cons.prems have "isNode v" "allNodes xs" by (simp_all add: a allNodes_def)
  with Cons.prems(1) have "allNodes (foldl (\<lambda>obj (k, v). setProp obj k v) (setProp obj k v) xs)"
    by (intro Cons.IH allNodes_setProp)
  then show ?case by (simp add: a)
qed

lemma allNodes_spread: "allNodes a \<Longrightarrow> allNodes b \<Longrightarrow> allNodes (spread a b)"
  unfolding spread_def by (rule allNodes_setProps) (simp_all add: allNodes_def)

lemma allNodes_reduceLoop: "allNodes pre \<Longrightarrow> allNodes (reduceLoop pre ts)"
proof (induction pre ts rule: reduceLoop.induct)
  case (1 pre)
  then show ?case by simp
next
  case (2 pre t va ka cs rest)
  define current where "current = RouteNode t va ka cs"
  define ck where "ck = reduceLoop [] cs"
  define pre' where "pre' = (if \<not> truthy (getProp pre ka) then setProp pre ka (Node current) else pre)"
  have step: "reduceLoop pre (RouteNode t va ka cs # rest) = reduceLoop (spread pre' ck) rest"
    by (simp add: Let_def pre'_def ck_def current_def)
  have ck: "allNodes ck"
    using "2.IH"(1) [OF current_def refl] unfolding ck_def current_def
    by (simp add: allNodes_def)
  have pre': "allNodes pre'"
    unfolding pre'_def using "2.prems" by (simp add: allNodes_setProp isNode_def)
  from pre' ck have sp: "allNodes (spread pre' ck)" by (rule allNodes_spread)
  have "allNodes (spread pre' ck) \<Longrightarrow> allNodes (reduceLoop (spread pre' ck) rest)"
    using "2.IH"(2) [OF current_def refl refl refl]
    unfolding pre'_def ck_def current_def by (simp split: if_splits)
  with sp show ?case unfolding step by simp
qed

lemma isNode_reduceData: "map_of (reduceData ts) k = Some v \<Longrightarrow> isNode v"
proof -
  assume "map_of (reduceData ts) k = Some v"
  then have "(k, v) \<in> set (reduceData ts)" by (rule map_of_SomeD)
  moreover have "allNodes (reduceData ts)"
    unfolding reduceData_def by (rule allNodes_reduceLoop) (simp add: allNodes_def)
  ultimately show ?thesis
    unfolding allNodes_def list_all_iff by blast
qed

lemma routeExists_iff:
  "routeExists p rts \<longleftrightarrow>
     p \<in> set (map fst (reduceData (genRouterToTreeData rts))) \<or> p \<in> set protoNames"
proof -
  define flat where "flat = reduceData (genRouterToTreeData rts)"
  have t: "\<And>v. map_of flat p = Some v \<Longrightarrow> isNode v"
    unfolding flat_def by (rule isNode_reduceData)
  have "truthy (getProp flat p) \<longleftrightarrow> map_of flat p \<noteq> None \<or> p \<in> set protoNames"
  proof (cases "map_of flat p")
    case None
    then show ?thesis by (simp add: getProp_def truthy_def)
  next
    case (Some v)
    with t have "isNode v" by simp
    with Some show ?thesis by (cases v) (simp_all add: getProp_def truthy_def isNode_def)
  qed
  then show ?thesis
    unfolding routeExists_def flat_def [symmetric] Let_def
    by (simp add: map_of_eq_None_iff)
qed

lemma routeExists_examples:
  "routeExists ''/user'' [Route (Some ''/user'') None] \<and>
   \<not> routeExists ''/user/list'' [Route (Some ''/user'') None]"
  by code_simp

text \<open>
  Claim C4. \<open>routeExists\<close> is meant to hold exactly for the keys of the flattened
  mapping (see \<open>routeExists_iff\<close> and \<open>routeExists_examples\<close>), but the read
  \<open>routerConfig[path]\<close> also finds the members inherited from \<open>Object.prototype\<close>:
  for the path \<open>constructor\<close> and no routes at all the result is \<open>true\<close>, although
  the mapping has no key.
\<close>

theorem routeExists_inherited_name:
  "routeExists ''constructor'' [] = True \<and>
   ''constructor'' \<notin> set (map fst (reduceData (genRouterToTreeData [])))"
  by code_simp

text \<open>
  Claim C5, amended. When a key is not the key of any descendant of the nodes of the
  sequence (and is not the name of a member of \<open>Object.prototype\<close>), \<open>reduceData\<close>
  binds it to the first node of the sequence that has this key, whatever siblings with
  the same key follow.
\<close>

theorem reduceData_first_sibling:
  assumes "k \<notin> set protoNames"
    and "k \<notin> set (allKeys (concat (map children treeData)))"
    and "find (\<lambda>n. key n = k) treeData = Some n"
  shows "getProp (reduceData treeData) k = Node n"
proof -
  from assms(1) have "\<not> truthy (getProp [] k)"
    by (simp add: getProp_def truthy_def)
  with assms(3) show ?thesis
    unfolding reduceData_def using getProp_reduceLoop [of "[]" k treeData, OF _ assms(2)]
    by simp
qed

theorem reduceData_first_sibling_witness:
  "getProp (reduceData
      [RouteNode ''/a'' ''/a'' ''/a'' [RouteNode ''/b'' ''/b'' ''/b'' []],
       RouteNode ''/a'' ''/a'' ''/a'' [RouteNode ''/c'' ''/c'' ''/c'' []]]) ''/a'' =
     Node (RouteNode ''/a'' ''/a'' ''/a'' [RouteNode ''/b'' ''/b'' ''/b'' []])"
proof -
  have "''/a'' \<notin> set protoNames" by code_simp
  moreover have "''/a'' \<notin> set (allKeys (concat (map children
      [RouteNode ''/a'' ''/a'' ''/a'' [RouteNode ''/b'' ''/b'' ''/b'' []],
       RouteNode ''/a'' ''/a'' ''/a'' [RouteNode ''/c'' ''/c'' ''/c'' []]])))"
    by code_simp
  moreover have "find (\<lambda>n. key n = ''/a'')
      [RouteNode ''/a'' ''/a'' ''/a'' [RouteNode ''/b'' ''/b'' ''/b'' []],
       RouteNode ''/a'' ''/a'' ''/a'' [RouteNode ''/c'' ''/c'' ''/c'' []]] =
      Some (RouteNode ''/a'' ''/a'' ''/a'' [RouteNode ''/b'' ''/b'' ''/b'' []])"
    by code_simp
  ultimately show ?thesis by (rule reduceData_first_sibling)
qed

text \<open>
  Claim C5 as stated fails: of two siblings with the key \<open>/a\<close>, the first of which has
  a child with the key \<open>/a\<close> too, neither is bound to the key; the spread lets the
  child's entry overwrite the first sibling's.
\<close>

theorem reduceData_sibling_counterexample:
  "key (RouteNode ''/a'' ''/a'' ''/a'' [RouteNode ''/a'' ''/a'' ''/a'' []]) =
     key (RouteNode ''/a'' ''/a'' ''/a'' [RouteNode ''/b'' ''/b'' ''/b'' []]) \<and>
   getProp (reduceData
      [RouteNode ''/a'' ''/a'' ''/a'' [RouteNode ''/a'' ''/a'' ''/a'' []],
       RouteNode ''/a'' ''/a'' ''/a'' [RouteNode ''/b'' ''/b'' ''/b'' []]]) ''/a'' =
     Node (RouteNode ''/a'' ''/a'' ''/a'' []) \<and>
   Node (RouteNode ''/a'' ''/a'' ''/a'' []) \<noteq>
     Node (RouteNode ''/a'' ''/a'' ''/a'' [RouteNode ''/a'' ''/a'' ''/a'' []])"
  by code_simp

subsection \<open>genRouterToTreeData\<close>

lemma mapRoutes_Cons:
  "mapRoutes (r # rs) =
     (case path r of
        None \<Rightarrow> None
      | Some p \<Rightarrow>
          if p \<noteq> [] then
            Some (RouteNode p p p
              (genRouterToTreeData (case routes r of None \<Rightarrow> [] | Some l \<Rightarrow> l)))
          else None) # mapRoutes rs"
  by (cases r) (auto split: option.splits)

text \<open>
  Claim C7, amended. An entry whose path is missing or is the empty string yields no node,
  and its nested routes are dropped with it; every entry with a non-empty path yields
  exactly one node with title, value and key equal to the path and the children computed
  from its nested routes (none when the field is missing); the order of the entries is
  kept.
\<close>

theorem genRouterToTreeData_entries:
  "genRouterToTreeData [] = [] \<and>
   (path r = None \<or> path r = Some [] \<longrightarrow>
      genRouterToTreeData (r # rs) = genRouterToTreeData rs) \<and>
   (path r = Some p \<and> p \<noteq> [] \<longrightarrow>
      genRouterToTreeData (r # rs) =
        RouteNode p p p (genRouterToTreeData (case routes r of None \<Rightarrow> [] | Some cs \<Rightarrow> cs))
          # genRouterToTreeData rs)"
  by (auto simp: mapRoutes_Cons)

theorem genRouterToTreeData_entries_witness:
  "genRouterToTreeData
     [Route None (Some [Route (Some ''/x'') None]),
      Route (Some ''/user'') (Some [Route (Some ''/user/list'') None])] =
     [RouteNode ''/user'' ''/user'' ''/user''
        [RouteNode ''/user/list'' ''/user/list'' ''/user/list'' []]]"
proof -
  let ?r1 = "Route None (Some [Route (Some ''/x'') None])"
  let ?r2 = "Route (Some ''/user'') (Some [Route (Some ''/user/list'') None])"
  let ?r3 = "Route (Some ''/user/list'') None"
  have "genRouterToTreeData [?r1, ?r2] = genRouterToTreeData [?r2]"
    using genRouterToTreeData_entries [of ?r1 "[?r2]"] by simp
  also have "\<dots> = RouteNode ''/user'' ''/user'' ''/user'' (genRouterToTreeData [?r3]) #
      genRouterToTreeData []"
    using genRouterToTreeData_entries [of ?r2 "[]" "''/user''"] by simp
  also have "genRouterToTreeData [?r3] =
      RouteNode ''/user/list'' ''/user/list'' ''/user/list'' (genRouterToTreeData [])
        # genRouterToTreeData []"
    using genRouterToTreeData_entries [of ?r3 "[]" "''/user/list''"] by simp
  finally show ?thesis by simp
qed

text \<open>
  Claim C7 as stated fails: an entry that has a path field holding the empty string
  yields no node, since the path is tested for truthiness.
\<close>

theorem genRouterToTreeData_empty_path_counterexample:
  "path (Route (Some []) None) = Some [] \<and> genRouterToTreeData [Route (Some []) None] = []"
  by code_simp

subsection \<open>split and join\<close>

lemma splitFrom_slash_free:
  "x \<in> set (splitFrom piece s) \<Longrightarrow> CHR ''/'' \<notin> set piece \<Longrightarrow> CHR ''/'' \<notin> set x"
proof (induction s arbitrary: piece)
  case Nil
  then show ?case by simp
next
  case (Cons c cs)
  show ?case
  proof (cases "c = CHR ''/''")
    case True
    with Cons.prems have "x = piece \<or> x \<in> set (splitFrom [] cs)" by simp
    then show ?thesis
      using Cons.prems(2) Cons.IH [of "[]"] by auto
  next
    case False
    with Cons.prems have "x \<in> set (splitFrom (piece @ [c]) cs)" by simp
    moreover from False Cons.prems(2) have "CHR ''/'' \<notin> set (piece @ [c])" by simp
    ultimately show ?thesis by (rule Cons.IH)
  qed
qed

lemma split_slash_free: "x \<in> set (split s) \<Longrightarrow> CHR ''/'' \<notin> set x"
  unfolding split_def using splitFrom_slash_free [of x "[]" s] by simp

lemma splitFrom_no_slash: "CHR ''/'' \<notin> set x \<Longrightarrow> splitFrom piece x = [piece @ x]"
  by (induction x arbitrary: piece) auto

lemma split_no_slash: "CHR ''/'' \<notin> set x \<Longrightarrow> split x = [x]"
  by (simp add: split_def splitFrom_no_slash)

lemma splitFrom_append_slash:
  "CHR ''/'' \<notin> set x \<Longrightarrow>
   splitFrom piece (x @ CHR ''/'' # rest) = (piece @ x) # splitFrom [] rest"
  by (induction x arbitrary: piece) auto

lemma split_append_slash:
  "CHR ''/'' \<notin> set x \<Longrightarrow> split (x @ CHR ''/'' # rest) = x # split rest"
  by (simp add: split_def splitFrom_append_slash)

lemma split_slash_Cons: "split (CHR ''/'' # s) = [] # split s"
  by (simp add: split_def)

lemma split_join:
  "xs \<noteq> [] \<Longrightarrow> \<forall>x \<in> set xs. CHR ''/'' \<notin> set x \<Longrightarrow> split (join ''/'' xs) = xs"
proof (induction xs)
  case Nil
  then show ?case by simp
next
  case (Cons x xs)
  show ?case
  proof (cases xs)
    case Nil
    with Cons.prems show ?thesis by (simp add: split_no_slash)
  next
    case (Cons y ys)
    with Cons.IH Cons.prems have "split (join ''/'' (y # ys)) = y # ys" by simp
    moreover from Cons.prems have "CHR ''/'' \<notin> set x" by simp
    ultimately show ?thesis
      using split_append_slash [of x "join ''/'' (y # ys)"] by (simp add: Cons)
  qed
qed

lemma join_Nil_iff: "\<forall>x \<in> set xs. x \<noteq> [] \<Longrightarrow> join sep xs = [] \<longleftrightarrow> xs = []"
proof (cases xs)
  case Nil
  then show ?thesis by simp
next
  case (Cons x ys)
  assume "\<forall>x \<in> set xs. x \<noteq> []"
  with Cons show ?thesis by (cases ys) auto
qed

subsection \<open>The prefix pass of depthRouterConfig\<close>

lemma ancestorKeys_iff:
  "k' \<in> set (ancestorKeys k) \<longleftrightarrow>
     (\<exists>i < length (filter (\<lambda>routerKey. routerKey \<noteq> []) (split k)).
        join ''/'' (take i (filter (\<lambda>routerKey. routerKey \<noteq> []) (split k))) \<noteq> [] \<and>
        k' = CHR ''/'' # join ''/'' (take i (filter (\<lambda>routerKey. routerKey \<noteq> []) (split k))))"
  unfolding ancestorKeys_def Let_def by (simp add: image_iff Bex_def)

lemma segments_fixpoint:
  assumes "array = filter (\<lambda>routerKey. routerKey \<noteq> []) (split k')"
    and "join ''/'' (take i array) \<noteq> []"
  shows "filter (\<lambda>routerKey. routerKey \<noteq> []) (split (CHR ''/'' # join ''/'' (take i array)))
           = take i array"
proof -
  have sub: "set (take i array) \<subseteq> set array" by (rule set_take_subset)
  have "\<forall>x \<in> set array. x \<noteq> []" by (simp add: assms(1))
  with sub have ne: "\<forall>x \<in> set (take i array). x \<noteq> []" by blast
  have "\<forall>x \<in> set array. CHR ''/'' \<notin> set x"
    using split_slash_free [of _ k'] by (simp add: assms(1))
  with sub have sf: "\<forall>x \<in> set (take i array). CHR ''/'' \<notin> set x" by blast
  from assms(2) have "take i array \<noteq> []" by (cases "take i array") auto
  then have "split (join ''/'' (take i array)) = take i array" using sf by (rule split_join)
  then have "split (CHR ''/'' # join ''/'' (take i array)) = [] # take i array"
    by (simp add: split_slash_Cons)
  then show ?thesis using ne by (simp add: filter_id_conv)
qed

lemma ancestorKeys_not_self: "k \<notin> set (ancestorKeys k)"
proof
  define array where "array = filter (\<lambda>routerKey. routerKey \<noteq> []) (split k)"
  assume "k \<in> set (ancestorKeys k)"
  then obtain i where i: "i < length array" "join ''/'' (take i array) \<noteq> []"
    and k: "k = CHR ''/'' # join ''/'' (take i array)"
    unfolding ancestorKeys_iff array_def [symmetric] by blast
  have "filter (\<lambda>routerKey. routerKey \<noteq> []) (split (CHR ''/'' # join ''/'' (take i array)))
           = take i array"
    using array_def i(2) by (rule segments_fixpoint)
  then have "filter (\<lambda>routerKey. routerKey \<noteq> []) (split k) = take i array"
    by (subst k)
  then have "array = take i array"
    by (subst array_def)
  then have "length array = length (take i array)"
    by (rule arg_cong [where f = length])
  also have "\<dots> = i" using i(1) by (simp del: take_all_iff)
  finally show False using i(1) by simp
qed

lemma ancestorKeys_example: "ancestorKeys ''/user/list/item'' = [''/user'', ''/user/list'']"
  by code_simp

lemma getProp_forEachIndex:
  assumes "\<forall>i \<in> set idxs. join ''/'' (take i array) \<noteq> [] \<longrightarrow>
             k \<noteq> CHR ''/'' # join ''/'' (take i array)"
  shows "getProp (forEachIndex rc k array idxs) k' =
           (if \<exists>i \<in> set idxs. join ''/'' (take i array) \<noteq> [] \<and>
                  k' = CHR ''/'' # join ''/'' (take i array)
            then getProp rc k else getProp rc k')"
  using assms
proof (induction idxs arbitrary: rc)
  case Nil
  show ?case by simp
next
  case (Cons index rest)
  define rk where "rk = join ''/'' (take index array)"
  define rc1 where "rc1 = (if rk \<noteq> [] then setProp rc (CHR ''/'' # rk) (getProp rc k) else rc)"
  have step: "forEachIndex rc k array (index # rest) = forEachIndex rc1 k array rest"
    by (simp add: Let_def rc1_def rk_def)
  from Cons.prems have kne: "rk \<noteq> [] \<longrightarrow> k \<noteq> CHR ''/'' # rk"
    by (simp add: rk_def)
  then have same: "getProp rc1 k = getProp rc k"
    by (simp add: rc1_def getProp_setProp)
  have other: "getProp rc1 k' = (if rk \<noteq> [] \<and> k' = CHR ''/'' # rk then getProp rc k else getProp rc k')"
    by (simp add: rc1_def getProp_setProp)
  from Cons.prems have "\<forall>i \<in> set rest. join ''/'' (take i array) \<noteq> [] \<longrightarrow>
             k \<noteq> CHR ''/'' # join ''/'' (take i array)"
    by simp
  from Cons.IH [OF this, of rc1]
  have "getProp (forEachIndex rc1 k array rest) k' =
           (if \<exists>i \<in> set rest. join ''/'' (take i array) \<noteq> [] \<and>
                  k' = CHR ''/'' # join ''/'' (take i array)
            then getProp rc k else getProp rc1 k')"
    unfolding same .
  then show ?case unfolding step other by (auto simp: rk_def)
qed

lemma getProp_prefixPass:
  "getProp (prefixPass rc k) k' =
     (if k' \<in> set (ancestorKeys k) then getProp rc k else getProp rc k')"
proof -
  define array where "array = filter (\<lambda>routerKey. routerKey \<noteq> []) (split k)"
  have "\<forall>i \<in> set [0..<length array]. join ''/'' (take i array) \<noteq> [] \<longrightarrow>
             k \<noteq> CHR ''/'' # join ''/'' (take i array)"
    using ancestorKeys_not_self [of k] unfolding ancestorKeys_iff array_def [symmetric]
    by auto
  from getProp_forEachIndex [OF this, of rc k']
  show ?thesis
    unfolding prefixPass_def ancestorKeys_iff array_def [symmetric] Let_def
    by (auto simp: Bex_def)
qed

lemma mapKeys_Cons:
  "mapKeys rc (k # ks) =
     (getProp (prefixPass rc k) k # fst (mapKeys (prefixPass rc k) ks),
      snd (mapKeys (prefixPass rc k) ks))"
  by (simp add: Let_def split: prod.splits)

lemma mapKeys_no_overwrite:
  "noLaterAncestor ks \<Longrightarrow> fst (mapKeys rc ks) = map (getProp rc) ks"
proof (induction ks arbitrary: rc)
  case Nil
  show ?case by simp
next
  case (Cons k ks)
  from Cons.prems have later: "\<forall>k' \<in> set ks. k' \<notin> set (ancestorKeys k)"
    and rest: "noLaterAncestor ks"
    by (simp_all add: list_all_iff)
  have "getProp (prefixPass rc k) k = getProp rc k"
    by (simp add: getProp_prefixPass ancestorKeys_not_self)
  moreover have "fst (mapKeys (prefixPass rc k) ks) = map (getProp (prefixPass rc k)) ks"
    using rest by (rule Cons.IH)
  moreover have "map (getProp (prefixPass rc k)) ks = map (getProp rc) ks"
    using later by (simp add: getProp_prefixPass)
  ultimately show ?case unfolding mapKeys_Cons by simp
qed

lemma getProp_own_key:
  "distinct (map fst obj) \<Longrightarrow> map (getProp obj) (map fst obj) = map snd obj"
proof -
  assume d: "distinct (map fst obj)"
  have "\<And>e. e \<in> set obj \<Longrightarrow> getProp obj (fst e) = snd e"
  proof -
    fix e assume "e \<in> set obj"
    then have "(fst e, snd e) \<in> set obj" by simp
    with d have "map_of obj (fst e) = Some (snd e)" by (rule map_of_is_SomeI)
    then show "getProp obj (fst e) = snd e" by (simp add: getProp_def)
  qed
  then show ?thesis by (simp add: comp_def)
qed

text \<open>
  Claim C6, amended. When no key of the flattened mapping is among the keys that the
  prefix pass of a key before it writes, \<open>depthRouterConfig\<close> returns, in the key order
  of the flattened mapping, exactly the flattened values whose children are not empty.
  The example of the claim is the witness: the result holds the node of \<open>/user\<close> and
  not the node of \<open>/user/list\<close>.
\<close>

theorem depthRouterConfig_no_overwrite:
  assumes "noLaterAncestor (map fst (reduceData (genRouterToTreeData rts)))"
  shows "depthRouterConfig rts =
           filter hasChildren (map snd (reduceData (genRouterToTreeData rts)))"
proof -
  define flat where "flat = reduceData (genRouterToTreeData rts)"
  have "distinct (map fst flat)"
    unfolding flat_def reduceData_def by (rule distinct_reduceLoop) simp
  then have "map (getProp flat) (map fst flat) = map snd flat"
    by (rule getProp_own_key)
  moreover have "fst (mapKeys flat (map fst flat)) = map (getProp flat) (map fst flat)"
    using assms unfolding flat_def by (rule mapKeys_no_overwrite)
  ultimately have "fst (mapKeys flat (map fst flat)) = map snd flat"
    by (rule trans [rotated])
  then show ?thesis
    unfolding depthRouterConfig_def flat_def [symmetric] Let_def by (rule arg_cong)
qed

theorem depthRouterConfig_no_overwrite_witness:
  "depthRouterConfig [Route (Some ''/user'') (Some [Route (Some ''/user/list'') None])] =
     [Node (RouteNode ''/user'' ''/user'' ''/user''
        [RouteNode ''/user/list'' ''/user/list'' ''/user/list'' []])]"
proof -
  let ?rts = "[Route (Some ''/user'') (Some [Route (Some ''/user/list'') None])]"
  have "noLaterAncestor (map fst (reduceData (genRouterToTreeData ?rts)))"
    by code_simp
  then have "depthRouterConfig ?rts =
      filter hasChildren (map snd (reduceData (genRouterToTreeData ?rts)))"
    by (rule depthRouterConfig_no_overwrite)
  also have "\<dots> = [Node (RouteNode ''/user'' ''/user'' ''/user''
        [RouteNode ''/user/list'' ''/user/list'' ''/user/list'' []])]"
    by code_simp
  finally show ?thesis .
qed

text \<open>
  Claim C6 as stated fails: with the routes \<open>/a/b\<close> (child \<open>/x\<close>) and then \<open>/a\<close>
  (child \<open>/y\<close>), the pass of \<open>/a/b\<close> overwrites the entry of \<open>/a\<close> before it is
  read, so the result holds the node of \<open>/a/b\<close> twice and not the node of \<open>/a\<close>,
  which has a child.
\<close>

theorem depthRouterConfig_overwrite_counterexample:
  "depthRouterConfig
     [Route (Some ''/a/b'') (Some [Route (Some ''/x'') None]),
      Route (Some ''/a'') (Some [Route (Some ''/y'') None])] =
     [Node (RouteNode ''/a/b'' ''/a/b'' ''/a/b'' [RouteNode ''/x'' ''/x'' ''/x'' []]),
      Node (RouteNode ''/a/b'' ''/a/b'' ''/a/b'' [RouteNode ''/x'' ''/x'' ''/x'' []])] \<and>
   filter hasChildren (map snd (reduceData (genRouterToTreeData
     [Route (Some ''/a/b'') (Some [Route (Some ''/x'') None]),
      Route (Some ''/a'') (Some [Route (Some ''/y'') None])]))) =
     [Node (RouteNode ''/a/b'' ''/a/b'' ''/a/b'' [RouteNode ''/x'' ''/x'' ''/x'' []]),
      Node (RouteNode ''/a'' ''/a'' ''/a'' [RouteNode ''/y'' ''/y'' ''/y'' []])]"
  by code_simp

text \<open>
  Claim C2, amended. The prefix pass of a key writes every ancestor key of that key
  unconditionally: after the pass each ancestor key is bound to the value of the key,
  whatever it was bound to before, and every other key is unchanged. Across keys the last
  processed key wins.
\<close>

theorem prefixPass_overwrites:
  "getProp (prefixPass routerConfig k) k' =
     (if k' \<in> set (ancestorKeys k) then getProp routerConfig k else getProp routerConfig k')"
  by (rule getProp_prefixPass)

theorem prefixPass_overwrites_witness:
  "''/user'' \<in> set (ancestorKeys ''/user/list'') \<and>
   getProp [(''/user'', Undefined), (''/user/list'', ProtoMember)] ''/user'' = Undefined \<and>
   getProp (prefixPass [(''/user'', Undefined), (''/user/list'', ProtoMember)] ''/user/list'')
     ''/user'' = ProtoMember"
proof -
  have a: "''/user'' \<in> set (ancestorKeys ''/user/list'')" by code_simp
  have "getProp [(''/user'', Undefined), (''/user/list'', ProtoMember)] ''/user/list'' = ProtoMember"
    "getProp [(''/user'', Undefined), (''/user/list'', ProtoMember)] ''/user'' = Undefined"
    by code_simp+
  with a show ?thesis
    using prefixPass_overwrites
      [of "[(''/user'', Undefined), (''/user/list'', ProtoMember)]" "''/user/list''" "''/user''"]
    by simp
qed

text \<open>
  Claim C2 as stated fails: in the example of the specification the key \<open>/user\<close> is
  present in the flattened mapping, bound to the node of \<open>/user\<close>, and the pass still
  writes it: in the final mapping it is bound to the node of \<open>/user/list\<close>.
\<close>

theorem depthRouterConfig_ancestor_counterexample:
  "''/user'' \<in> set (map fst (reduceData (genRouterToTreeData
      [Route (Some ''/user'') (Some [Route (Some ''/user/list'') None])]))) \<and>
   getProp (reduceData (genRouterToTreeData
      [Route (Some ''/user'') (Some [Route (Some ''/user/list'') None])])) ''/user'' =
     Node (RouteNode ''/user'' ''/user'' ''/user''
        [RouteNode ''/user/list'' ''/user/list'' ''/user/list'' []]) \<and>
   getProp (snd (mapKeys
      (reduceData (genRouterToTreeData
        [Route (Some ''/user'') (Some [Route (Some ''/user/list'') None])]))
      (map fst (reduceData (genRouterToTreeData
        [Route (Some ''/user'') (Some [Route (Some ''/user/list'') None])]))))) ''/user'' =
     Node (RouteNode ''/user/list'' ''/user/list'' ''/user/list'' [])"
  by code_simp

subsection \<open>printBlocks\<close>

lemma loopBlocks_length:
  "loopBlocks E hasLink bs parentPath blockArray = Inr r \<Longrightarrow>
   length r = length blockArray + countBlocks bs"
proof (induction E hasLink bs parentPath blockArray arbitrary: r rule: loopBlocks.induct)
  case (1 E hasLink parentPath blockArray)
  then show ?case by simp
next
  case (2 E hasLink ty p url bs rest parentPath blockArray)
  show ?case
    using "2.prems" "2.IH"
    by (auto simp: Let_def split: if_splits option.splits sum.splits)
qed

lemma loopBlocks_values:
  "loopBlocks E hasLink bs parentPath blockArray = Inr r \<Longrightarrow>
   map choiceValue r = map choiceValue blockArray @ parentPaths (pathJoin E) bs parentPath \<and>
   map choiceKey r = map choiceKey blockArray @ parentPaths (pathJoin E) bs parentPath"
proof (induction E hasLink bs parentPath blockArray arbitrary: r rule: loopBlocks.induct)
  case (1 E hasLink parentPath blockArray)
  then show ?case by simp
next
  case (2 E hasLink ty p url bs rest parentPath blockArray)
  show ?case
    using "2.prems" "2.IH"
    by (auto simp: Let_def split: if_splits option.splits sum.splits)
qed

lemma loopBlocks_total:
  "dirsHaveBlocks bs \<Longrightarrow> \<exists>r. loopBlocks E hasLink bs parentPath blockArray = Inr r"
proof (induction E hasLink bs parentPath blockArray rule: loopBlocks.induct)
  case (1 E hasLink parentPath blockArray)
  show ?case by simp
next
  case (2 E hasLink ty p url bs rest parentPath blockArray)
  define blockArray' where "blockArray' =
        (if ty = ''block'' then
           (let blockName = pathJoin E parentPath p;
                name = packageEmoji @ ''  '' @ cyan E blockName @ ''  '';
                name' =
                  (if hasLink then
                     name @ terminalLink E previewLabel
                       (''https://preview.pro.ant.design/'' @ template url)
                   else name)
            in blockArray @ [Choice name' blockName blockName])
         else blockArray)"
  from "2.prems" have rest: "dirsHaveBlocks rest" by simp
  show ?case
  proof (cases "ty = ''dir''")
    case True
    with "2.prems" obtain inner where bs: "bs = Some inner" and inner: "dirsHaveBlocks inner"
      by (cases bs) auto
    from "2.IH"(1) [OF blockArray'_def True bs inner]
    obtain r1 where r1: "loopBlocks E hasLink inner p blockArray' = Inr r1" by blast
    from "2.IH"(2) [OF blockArray'_def True bs r1 rest]
    obtain r2 where "loopBlocks E hasLink rest parentPath r1 = Inr r2" by blast
    moreover from True have "blockArray' = blockArray" by (simp add: blockArray'_def)
    ultimately show ?thesis using True bs r1 by simp
  next
    case False
    from "2.IH"(3) [OF blockArray'_def False rest]
    obtain r where "loopBlocks E hasLink rest parentPath blockArray' = Inr r" by blast
    with False show ?thesis
      unfolding blockArray'_def by (simp add: Let_def)
  qed
qed

lemma printBlocks_length:
  "dirsHaveBlocks bs \<Longrightarrow>
   \<exists>r. printBlocks E bs hasLink = Inr r \<and> length r = countBlocks bs"
  unfolding printBlocks_def
  using loopBlocks_total [of bs E hasLink "[]" "[]"] loopBlocks_length [of E hasLink bs "[]" "[]"]
  by auto

lemma printBlocks_missing_blocks:
  "printBlocks E [Descriptor ''dir'' p url None] hasLink = Inl TypeError"
  by (simp add: printBlocks_def)

lemma posixJoin_examples:
  "posixJoin '''' ''a'' = ''a'' \<and> posixJoin ''a'' ''b'' = ''a/b'' \<and>
   posixJoin ''a/b'' ''c'' = ''a/b/c'' \<and> posixJoin ''b'' ''c'' = ''b/c'' \<and>
   posixJoin ''a/'' ''../b/./c'' = ''b/c'' \<and> posixJoin '''' '''' = ''.''"
  by code_simp

text \<open>
  Claim C1. The length of the result is the number of block descriptors
  (\<open>printBlocks_length\<close>), but the value of a block below nested directories is not the
  join of all its ancestors' paths: the recursive call passes the directory's own path
  instead of the accumulated one, so for a block \<open>c\<close> in a directory \<open>b\<close> in a directory
  \<open>a\<close> the value is \<open>b/c\<close>, where the specification gives \<open>a/b/c\<close>. In general the
  value is the path of the directory the block stands in joined with its own path
  (\<open>loopBlocks_values\<close>).
\<close>

theorem printBlocks_nested_dir:
  "map_sum id (map (\<lambda>entry. (choiceValue entry, choiceKey entry)))
     (printBlocks \<lparr>pathJoin = posixJoin, cyan = c, terminalLink = t\<rparr>
        [Descriptor ''dir'' ''a'' None
           (Some [Descriptor ''dir'' ''b'' None
              (Some [Descriptor ''block'' ''c'' None None])])]
        hasLink) = Inr [(''b/c'', ''b/c'')] \<and>
   ancestorPaths posixJoin
     [Descriptor ''dir'' ''a'' None
        (Some [Descriptor ''dir'' ''b'' None
           (Some [Descriptor ''block'' ''c'' None None])])] '''' = [''a/b/c'']"
proof -
  have j: "posixJoin ''b'' ''c'' = ''b/c''" "posixJoin '''' ''a'' = ''a''"
    "posixJoin ''a'' ''b'' = ''a/b''" "posixJoin ''a/b'' ''c'' = ''a/b/c''"
    using posixJoin_examples by simp_all
  show ?thesis by (simp add: printBlocks_def Let_def j)
qed

subsection \<open>gitUpdate\<close>


lemma gitUpdate_fetch_fails:
  assumes "execa w [''fetch''] (templateTmpDirPath c) = (Some e, w1)"
  shows "gitUpdate execa existsSync pj c (w, log) =
           (Inl (Error (errorToString e)),
            (w1, log @ [SpinnerStart (fireEngine @ ''  Git fetch''),
                        Exec [''fetch''] (templateTmpDirPath c), SpinnerFail]))"
  using assms by (simp add: gitUpdate_def Let_def exec_def emit_def rethrow_def)

lemma gitUpdate_checkout_fails:
  assumes "execa w [''fetch''] (templateTmpDirPath c) = (None, w1)"
    and "execa w1 [''checkout'', branch c] (templateTmpDirPath c) = (Some e, w2)"
  shows "gitUpdate execa existsSync pj c (w, log) =
           (Inl (Error (errorToString e)),
            (w2, log @ [SpinnerStart (fireEngine @ ''  Git fetch''),
                        Exec [''fetch''] (templateTmpDirPath c), SpinnerSucceed,
                        SpinnerStart (lorry @ ''  Git checkout '' @ branch c),
                        Exec [''checkout'', branch c] (templateTmpDirPath c), SpinnerFail]))"
  using assms by (simp add: gitUpdate_def Let_def exec_def emit_def rethrow_def)

lemma gitUpdate_pull_fails:
  assumes "execa w [''fetch''] (templateTmpDirPath c) = (None, w1)"
    and "execa w1 [''checkout'', branch c] (templateTmpDirPath c) = (None, w2)"
    and "execa w2 [''pull''] (templateTmpDirPath c) = (Some e, w3)"
  shows "gitUpdate execa existsSync pj c (w, log) =
           (Inl (Error (errorToString e)),
            (w3, log @ [SpinnerStart (fireEngine @ ''  Git fetch''),
                        Exec [''fetch''] (templateTmpDirPath c), SpinnerSucceed,
                        SpinnerStart (lorry @ ''  Git checkout '' @ branch c),
                        Exec [''checkout'', branch c] (templateTmpDirPath c), SpinnerSucceed,
                        SpinnerStart (rocket @ ''  Git pull''),
                        Exec [''pull''] (templateTmpDirPath c), SpinnerFail]))"
  using assms by (simp add: gitUpdate_def Let_def exec_def emit_def rethrow_def)

lemma gitUpdate_no_submodule:
  assumes "execa w [''fetch''] (templateTmpDirPath c) = (None, w1)"
    and "execa w1 [''checkout'', branch c] (templateTmpDirPath c) = (None, w2)"
    and "execa w2 [''pull''] (templateTmpDirPath c) = (None, w3)"
    and "\<not> existsSync w3 (pj (templateTmpDirPath c) ''.gitmodules'')"
  shows "gitUpdate execa existsSync pj c (w, log) =
           (Inr (),
            (w3, log @ [SpinnerStart (fireEngine @ ''  Git fetch''),
                        Exec [''fetch''] (templateTmpDirPath c), SpinnerSucceed,
                        SpinnerStart (lorry @ ''  Git checkout '' @ branch c),
                        Exec [''checkout'', branch c] (templateTmpDirPath c), SpinnerSucceed,
                        SpinnerStart (rocket @ ''  Git pull''),
                        Exec [''pull''] (templateTmpDirPath c), SpinnerSucceed]))"
  using assms by (simp add: gitUpdate_def Let_def exec_def emit_def isSubmodule_def)

lemma gitUpdate_init_fails:
  assumes "execa w [''fetch''] (templateTmpDirPath c) = (None, w1)"
    and "execa w1 [''checkout'', branch c] (templateTmpDirPath c) = (None, w2)"
    and "execa w2 [''pull''] (templateTmpDirPath c) = (None, w3)"
    and "existsSync w3 (pj (templateTmpDirPath c) ''.gitmodules'')"
    and "execa w3 [''submodule'', ''init''] (templateTmpDirPath c) = (Some e, w4)"
  shows "gitUpdate execa existsSync pj c (w, log) =
           (Inl (Error (errorToString e)),
            (w4, log @ [SpinnerStart (fireEngine @ ''  Git fetch''),
                        Exec [''fetch''] (templateTmpDirPath c), SpinnerSucceed,
                        SpinnerStart (lorry @ ''  Git checkout '' @ branch c),
                        Exec [''checkout'', branch c] (templateTmpDirPath c), SpinnerSucceed,
                        SpinnerStart (rocket @ ''  Git pull''),
                        Exec [''pull''] (templateTmpDirPath c), SpinnerSucceed,
                        Exec [''submodule'', ''init''] (templateTmpDirPath c), SpinnerFail]))"
  using assms by (simp add: gitUpdate_def Let_def exec_def emit_def rethrow_def isSubmodule_def)

lemma gitUpdate_update_fails:
  assumes "execa w [''fetch''] (templateTmpDirPath c) = (None, w1)"
    and "execa w1 [''checkout'', branch c] (templateTmpDirPath c) = (None, w2)"
    and "execa w2 [''pull''] (templateTmpDirPath c) = (None, w3)"
    and "existsSync w3 (pj (templateTmpDirPath c) ''.gitmodules'')"
    and "execa w3 [''submodule'', ''init''] (templateTmpDirPath c) = (None, w4)"
    and "execa w4 [''submodule'', ''update'', ''--recursive''] (templateTmpDirPath c) = (Some e, w5)"
  shows "gitUpdate execa existsSync pj c (w, log) =
           (Inl (Error (errorToString e)),
            (w5, log @ [SpinnerStart (fireEngine @ ''  Git fetch''),
                        Exec [''fetch''] (templateTmpDirPath c), SpinnerSucceed,
                        SpinnerStart (lorry @ ''  Git checkout '' @ branch c),
                        Exec [''checkout'', branch c] (templateTmpDirPath c), SpinnerSucceed,
                        SpinnerStart (rocket @ ''  Git pull''),
                        Exec [''pull''] (templateTmpDirPath c), SpinnerSucceed,
                        Exec [''submodule'', ''init''] (templateTmpDirPath c),
                        SpinnerStart (eyes @ ''  update submodule''),
                        Exec [''submodule'', ''update'', ''--recursive''] (templateTmpDirPath c),
                        SpinnerFail]))"
  using assms by (simp add: gitUpdate_def Let_def exec_def emit_def rethrow_def isSubmodule_def)

lemma gitUpdate_with_submodule:
  assumes "execa w [''fetch''] (templateTmpDirPath c) = (None, w1)"
    and "execa w1 [''checkout'', branch c] (templateTmpDirPath c) = (None, w2)"
    and "execa w2 [''pull''] (templateTmpDirPath c) = (None, w3)"
    and "existsSync w3 (pj (templateTmpDirPath c) ''.gitmodules'')"
    and "execa w3 [''submodule'', ''init''] (templateTmpDirPath c) = (None, w4)"
    and "execa w4 [''submodule'', ''update'', ''--recursive''] (templateTmpDirPath c) = (None, w5)"
  shows "gitUpdate execa existsSync pj c (w, log) =
           (Inr (),
            (w5, log @ [SpinnerStart (fireEngine @ ''  Git fetch''),
                        Exec [''fetch''] (templateTmpDirPath c), SpinnerSucceed,
                        SpinnerStart (lorry @ ''  Git checkout '' @ branch c),
                        Exec [''checkout'', branch c] (templateTmpDirPath c), SpinnerSucceed,
                        SpinnerStart (rocket @ ''  Git pull''),
                        Exec [''pull''] (templateTmpDirPath c), SpinnerSucceed,
                        Exec [''submodule'', ''init''] (templateTmpDirPath c),
                        SpinnerStart (eyes @ ''  update submodule''),
                        Exec [''submodule'', ''update'', ''--recursive''] (templateTmpDirPath c),
                        SpinnerSucceed]))"
  using assms by (simp add: gitUpdate_def Let_def exec_def emit_def isSubmodule_def)

lemma commands_append: "commands (xs @ ys) = commands xs @ commands ys"
  by (induction xs rule: commands.induct) auto

lemma gitUpdate_commands:
  assumes f: "execa w [''fetch''] (templateTmpDirPath c) = (r1, w1)"
    and ch: "execa w1 [''checkout'', branch c] (templateTmpDirPath c) = (r2, w2)"
    and p: "execa w2 [''pull''] (templateTmpDirPath c) = (r3, w3)"
    and i: "execa w3 [''submodule'', ''init''] (templateTmpDirPath c) = (r4, w4)"
  shows "commands (snd (snd (gitUpdate execa existsSync pj c (w, [])))) =
           (if r1 \<noteq> None then [[''fetch'']]
            else if r2 \<noteq> None then [[''fetch''], [''checkout'', branch c]]
            else if r3 \<noteq> None \<or> \<not> existsSync w3 (pj (templateTmpDirPath c) ''.gitmodules'')
              then [[''fetch''], [''checkout'', branch c], [''pull'']]
            else if r4 \<noteq> None
              then [[''fetch''], [''checkout'', branch c], [''pull''], [''submodule'', ''init'']]
            else [[''fetch''], [''checkout'', branch c], [''pull''], [''submodule'', ''init''],
                  [''submodule'', ''update'', ''--recursive'']])"
proof -
  obtain r5 w5 where u: "execa w4 [''submodule'', ''update'', ''--recursive'']
      (templateTmpDirPath c) = (r5, w5)"
    by (cases "execa w4 [''submodule'', ''update'', ''--recursive''] (templateTmpDirPath c)")
  show ?thesis
  proof (cases r1)
    case (Some e)
    with f show ?thesis by (simp add: gitUpdate_fetch_fails)
  next
    case None
    note r1 = this
    show ?thesis
    proof (cases r2)
      case (Some e)
      with f ch r1 show ?thesis by (simp add: gitUpdate_checkout_fails)
    next
      case None
      note r2 = this
      show ?thesis
      proof (cases r3)
        case (Some e)
        with f ch p r1 r2 show ?thesis by (simp add: gitUpdate_pull_fails)
      next
        case None
        note r3 = this
        show ?thesis
        proof (cases "existsSync w3 (pj (templateTmpDirPath c) ''.gitmodules'')")
          case False
          with f ch p r1 r2 r3 show ?thesis by (simp add: gitUpdate_no_submodule)
        next
          case True
          note m = this
          show ?thesis
          proof (cases r4)
            case (Some e)
            with f ch p i r1 r2 r3 m show ?thesis by (simp add: gitUpdate_init_fails)
          next
            case None
            note r4 = this
            show ?thesis
            proof (cases r5)
              case (Some e)
              with f ch p i u r1 r2 r3 r4 m show ?thesis
                by (simp add: gitUpdate_update_fails)
            next
              case None
              with f ch p i u r1 r2 r3 r4 m show ?thesis
                by (simp add: gitUpdate_with_submodule)
            qed
          qed
        qed
      qed
    qed
  qed
qed




text \<open>
  Claim C9. When fetch, checkout and pull succeed and the marker file \<open>.gitmodules\<close> is
  not in the directory after the pull, the operation succeeds and the log holds no
  submodule command; a submodule command runs exactly when the three steps succeed and
  the marker file is there.
\<close>

theorem gitUpdate_submodule_steps:
  assumes "execa w [''fetch''] (templateTmpDirPath c) = (r1, w1)"
    and "execa w1 [''checkout'', branch c] (templateTmpDirPath c) = (r2, w2)"
    and "execa w2 [''pull''] (templateTmpDirPath c) = (r3, w3)"
  shows "(r1 = None \<and> r2 = None \<and> r3 = None \<and>
          \<not> existsSync w3 (pj (templateTmpDirPath c) ''.gitmodules'') \<longrightarrow>
            gitUpdate execa existsSync pj c (w, log) =
              (Inr (),
               (w3, log @ [SpinnerStart (fireEngine @ ''  Git fetch''),
                           Exec [''fetch''] (templateTmpDirPath c), SpinnerSucceed,
                           SpinnerStart (lorry @ ''  Git checkout '' @ branch c),
                           Exec [''checkout'', branch c] (templateTmpDirPath c),
                           SpinnerSucceed,
                           SpinnerStart (rocket @ ''  Git pull''),
                           Exec [''pull''] (templateTmpDirPath c), SpinnerSucceed]))) \<and>
         ((\<exists>args \<in> set (commands (snd (snd (gitUpdate execa existsSync pj c (w, []))))).
             hd args = ''submodule'') =
          (r1 = None \<and> r2 = None \<and> r3 = None \<and>
           existsSync w3 (pj (templateTmpDirPath c) ''.gitmodules'')))"
proof (intro conjI impI)
  assume "r1 = None \<and> r2 = None \<and> r3 = None \<and>
          \<not> existsSync w3 (pj (templateTmpDirPath c) ''.gitmodules'')"
  with assms show "gitUpdate execa existsSync pj c (w, log) =
              (Inr (),
               (w3, log @ [SpinnerStart (fireEngine @ ''  Git fetch''),
                           Exec [''fetch''] (templateTmpDirPath c), SpinnerSucceed,
                           SpinnerStart (lorry @ ''  Git checkout '' @ branch c),
                           Exec [''checkout'', branch c] (templateTmpDirPath c),
                           SpinnerSucceed,
                           SpinnerStart (rocket @ ''  Git pull''),
                           Exec [''pull''] (templateTmpDirPath c), SpinnerSucceed]))"
    by (simp add: gitUpdate_no_submodule)
next
  obtain r4 w4 where i: "execa w3 [''submodule'', ''init''] (templateTmpDirPath c) = (r4, w4)"
    by (cases "execa w3 [''submodule'', ''init''] (templateTmpDirPath c)")
  show "(\<exists>args \<in> set (commands (snd (snd (gitUpdate execa existsSync pj c (w, []))))).
             hd args = ''submodule'') =
          (r1 = None \<and> r2 = None \<and> r3 = None \<and>
           existsSync w3 (pj (templateTmpDirPath c) ''.gitmodules''))"
    unfolding gitUpdate_commands [where execa = execa and w = w and c = c
      and existsSync = existsSync and pj = pj, OF assms i] by simp
qed


theorem gitUpdate_submodule_steps_witness:
  "gitUpdate scriptedExeca scriptedExists posixJoin exampleCtx (([], False), []) =
     (Inr (),
      (([], False),
       [SpinnerStart (fireEngine @ ''  Git fetch''),
        Exec [''fetch''] ''/tmp/blocks/umi-blocks'', SpinnerSucceed,
        SpinnerStart (lorry @ ''  Git checkout master''),
        Exec [''checkout'', ''master''] ''/tmp/blocks/umi-blocks'', SpinnerSucceed,
        SpinnerStart (rocket @ ''  Git pull''),
        Exec [''pull''] ''/tmp/blocks/umi-blocks'', SpinnerSucceed]))"
proof -
  let ?w = "([] :: (string list \<times> string) list, False)"
  have f: "scriptedExeca ?w [''fetch''] (templateTmpDirPath exampleCtx) = (None, ?w)"
    and c: "scriptedExeca ?w [''checkout'', branch exampleCtx] (templateTmpDirPath exampleCtx)
              = (None, ?w)"
    and p: "scriptedExeca ?w [''pull''] (templateTmpDirPath exampleCtx) = (None, ?w)"
    by (simp_all add: scriptedExeca_def exampleCtx_def)
  have m: "\<not> scriptedExists ?w (posixJoin (templateTmpDirPath exampleCtx) ''.gitmodules'')"
    by (simp add: scriptedExists_def)
  have "gitUpdate scriptedExeca scriptedExists posixJoin exampleCtx (?w, []) =
      (Inr (),
       (?w, [] @ [SpinnerStart (fireEngine @ ''  Git fetch''),
             Exec [''fetch''] (templateTmpDirPath exampleCtx), SpinnerSucceed,
             SpinnerStart (lorry @ ''  Git checkout '' @ branch exampleCtx),
             Exec [''checkout'', branch exampleCtx] (templateTmpDirPath exampleCtx),
             SpinnerSucceed,
             SpinnerStart (rocket @ ''  Git pull''),
             Exec [''pull''] (templateTmpDirPath exampleCtx), SpinnerSucceed]))"
    using gitUpdate_submodule_steps [where execa = scriptedExeca and w = "?w"
        and c = exampleCtx and existsSync = scriptedExists and pj = posixJoin and log = "[]",
        OF f c p] m
    by simp
  then show ?thesis by (simp add: exampleCtx_def)
qed

end
